theory Spec2Isabelle
  imports Main "HOL-Library.Finite_Map" "HOL-Library.Multiset"
begin

section \<open>The repository pool of \<open>repository_pool.go\<close>\<close>

subsection \<open>Errors, results and the outside world\<close>

text \<open>
  A Go \<open>error\<close> value. \<open>io.EOF\<close> is the sentinel the pool and the iterators compare
  against; every other error is opaque to this code and only passed on.
\<close>

datatype error = EOF | ErrRepositoryNotExists | OtherError string

text \<open>
  A Go call either returns its results or panics (index out of range, nil dereference,
  closing a closed channel).
\<close>

datatype 'a outcome = Return 'a | Panic

text \<open>An entry of a directory listing, as \<open>os.FileInfo\<close> shows it to \<open>AddDir\<close>.\<close>

record FileInfo =
  Name :: string
  IsDir :: bool

text \<open>
  The functions this file calls and does not define: \<open>git.PlainOpen\<close>,
  \<open>ioutil.ReadDir\<close>, \<open>filepath.Base\<close> and \<open>filepath.Join\<close>. They are
  parameters of every operation that uses them; \<open>'h\<close> is the type of an opened
  \<open>*git.Repository\<close>. A call that returns \<open>(nil, err)\<close> is \<open>Inl err\<close>.
\<close>

record 'h env =
  PlainOpen :: "string \<Rightarrow> error + 'h"
  ReadDir :: "string \<Rightarrow> error + FileInfo list"
  Base :: "string \<Rightarrow> string"
  Join :: "string \<Rightarrow> string \<Rightarrow> string"

subsection \<open>Repository and RepositoryPool\<close>

record 'h Repository =
  ID :: string
  Repo :: 'h

definition NewRepository :: "string \<Rightarrow> 'h \<Rightarrow> 'h Repository" where
  "NewRepository ident repo = \<lparr>ID = ident, Repo = repo\<rparr>"

definition NewRepositoryFromPath :: "'h env \<Rightarrow> string \<Rightarrow> string \<Rightarrow> error + 'h Repository" where
  "NewRepositoryFromPath env ident path =
     (case PlainOpen env path of
        Inl err \<Rightarrow> Inl err
      | Inr repo \<Rightarrow> Inr (NewRepository ident repo))"

text \<open>
  \<open>repositories\<close> is the Go map from identifier to path (a finite map, \<open>len\<close> is the
  number of its keys); \<open>idOrder\<close> is the slice of identifiers in insertion order.
\<close>

record RepositoryPool =
  repositories :: "(string, string) fmap"
  idOrder :: "string list"

definition len_repositories :: "RepositoryPool \<Rightarrow> nat" where
  "len_repositories p = fcard (fmdom (repositories p))"

definition NewRepositoryPool :: RepositoryPool where
  "NewRepositoryPool = \<lparr>repositories = fmempty, idOrder = []\<rparr>"

definition Add :: "RepositoryPool \<Rightarrow> string \<Rightarrow> string \<Rightarrow> RepositoryPool" where
  "Add p ident path =
     (let ok = (fmlookup (repositories p) ident \<noteq> None);
          p1 = (if \<not> ok then p\<lparr>idOrder := idOrder p @ [ident]\<rparr> else p)
      in p1\<lparr>repositories := fmupd ident path (repositories p1)\<rparr>)"

text \<open>
  \<open>AddGit\<close> returns the error (\<open>Inl\<close>) or the identifier, and the pool as it leaves it.
\<close>

definition AddGit :: "'h env \<Rightarrow> RepositoryPool \<Rightarrow> string \<Rightarrow> (error + string) \<times> RepositoryPool" where
  "AddGit env p path =
     (case PlainOpen env path of
        Inl err \<Rightarrow> (Inl err, p)
      | Inr _ \<Rightarrow> (let ident = Base env path in (Inr ident, Add p ident path)))"

text \<open>The loop of \<open>AddDir\<close> over the listing; the result of each \<open>AddGit\<close> is dropped.\<close>

fun AddDir_loop :: "'h env \<Rightarrow> string \<Rightarrow> RepositoryPool \<Rightarrow> FileInfo list \<Rightarrow> RepositoryPool" where
  "AddDir_loop env path p [] = p"
| "AddDir_loop env path p (f # dirs) =
     (if IsDir f
      then AddDir_loop env path (snd (AddGit env p (Join env path (Name f)))) dirs
      else AddDir_loop env path p dirs)"

definition AddDir :: "'h env \<Rightarrow> RepositoryPool \<Rightarrow> string \<Rightarrow> error option \<times> RepositoryPool" where
  "AddDir env p path =
     (case ReadDir env path of
        Inl err \<Rightarrow> (Some err, p)
      | Inr dirs \<Rightarrow> (None, AddDir_loop env path p dirs))"

text \<open>
  \<open>GetPos\<close>. The position is a Go \<open>int\<close>. Only the upper bound is checked, and against
  the size of the map: indexing \<open>idOrder\<close> with a negative position, or with one that is
  not below its length, panics. A key missing from the map reads as the empty path.
\<close>

definition GetPos :: "'h env \<Rightarrow> RepositoryPool \<Rightarrow> int \<Rightarrow> (error + 'h Repository) outcome" where
  "GetPos env p k =
     (if k \<ge> int (len_repositories p) then Return (Inl EOF)
      else if k < 0 \<or> k \<ge> int (length (idOrder p)) then Panic
      else
        (let ident = idOrder p ! nat k in
         if ident = '''' then Return (Inl EOF)
         else
           (let path = (case fmlookup (repositories p) ident of None \<Rightarrow> '''' | Some v \<Rightarrow> v)
            in Return (NewRepositoryFromPath env ident path))))"

subsection \<open>RepositoryIter\<close>

text \<open>
  The iterator holds its position and a pointer to the pool; \<open>pool\<close> is the pool that
  pointer refers to when \<open>Next\<close> is called. The pool is shared, not copied: what
  \<open>Add\<close>, \<open>AddGit\<close> or \<open>AddDir\<close> do to it after \<open>RepoIter\<close> is what the
  iterator reads at its next call (\<open>Next_calls\<close> below). The position is a Go
  \<open>int\<close>; \<open>Next\<close> increments it only when it is below the size of the map, so it does
  not wrap around.
\<close>

record RepositoryIter =
  pos :: int
  pool :: RepositoryPool

definition RepoIter :: "RepositoryPool \<Rightarrow> RepositoryIter" where
  "RepoIter p = \<lparr>pos = 0, pool = p\<rparr>"

text \<open>\<open>Next\<close> of the repository iterator returns its result and the iterator as it leaves it.\<close>

definition RepositoryIter_Next ::
  "'h env \<Rightarrow> RepositoryIter \<Rightarrow> (error + 'h Repository) outcome \<times> RepositoryIter" where
  "RepositoryIter_Next env i =
     (case GetPos env (pool i) (pos i) of
        Panic \<Rightarrow> (Panic, i)
      | Return (Inl err) \<Rightarrow> (Return (Inl err), i)
      | Return (Inr r) \<Rightarrow> (Return (Inr r), i\<lparr>pos := pos i + 1\<rparr>))"

definition RepositoryIter_Close :: "RepositoryIter \<Rightarrow> error option" where
  "RepositoryIter_Close i = None"

subsection \<open>Pools built by the exported operations\<close>

datatype 'h pool_op = OpAdd string string | OpAddGit "'h env" string | OpAddDir "'h env" string

fun apply_pool_op :: "RepositoryPool \<Rightarrow> 'h pool_op \<Rightarrow> RepositoryPool" where
  "apply_pool_op p (OpAdd ident path) = Add p ident path"
| "apply_pool_op p (OpAddGit env path) = snd (AddGit env p path)"
| "apply_pool_op p (OpAddDir env path) = snd (AddDir env p path)"



text \<open>The pool after \<open>NewRepositoryPool\<close> and a sequence of calls, each in its own outside world.\<close>

definition pool_after :: "'h pool_op list \<Rightarrow> RepositoryPool" where
  "pool_after ops = foldl apply_pool_op NewRepositoryPool ops"

text \<open>The invariant of the pool: the slice lists the keys of the map, each once.\<close>

definition pool_inv :: "RepositoryPool \<Rightarrow> bool" where
  "pool_inv p \<longleftrightarrow> distinct (idOrder p) \<and> set (idOrder p) = fset (fmdom (repositories p))"

text \<open>
  What \<open>AddDir\<close> is to register from a listing: the joined paths of the entries that are
  directories and open as repositories, in listing order.
\<close>

definition valid_subdirs :: "'h env \<Rightarrow> string \<Rightarrow> FileInfo list \<Rightarrow> string list" where
  "valid_subdirs env path dirs =
     filter (\<lambda>loc. \<exists>h. PlainOpen env loc = Inr h)
       (map (\<lambda>f. Join env path (Name f)) (filter IsDir dirs))"

subsection \<open>A small outside world\<close>

text \<open>
  \<open>filepath.Base\<close> on Unix: the empty path gives a dot, trailing slashes are dropped, the
  result is what follows the last slash, and a path of slashes only gives one slash.
\<close>

definition filepath_Base :: "string \<Rightarrow> string" where
  "filepath_Base path =
     (if path = [] then ''.''
      else
        (let q = rev (dropWhile (\<lambda>c. c = CHR ''/'') (rev path));
             b = rev (takeWhile (\<lambda>c. c \<noteq> CHR ''/'') (rev q))
         in if b = [] then ''/'' else b))"

text \<open>
  A file system with the directory \<open>/srv\<close>, holding the repositories \<open>a\<close> and \<open>b\<close>, a
  directory \<open>docs\<close> that is no repository and a file \<open>README\<close>. Joining a clean
  directory path and a plain name puts a slash between them.
\<close>

definition example_env :: "unit env" where
  "example_env =
     \<lparr>PlainOpen = (\<lambda>path. if path = ''/srv/a'' \<or> path = ''/srv/b'' then Inr ()
                         else Inl ErrRepositoryNotExists),
      ReadDir = (\<lambda>path. if path = ''/srv''
                        then Inr [\<lparr>Name = ''a'', IsDir = True\<rparr>, \<lparr>Name = ''docs'', IsDir = True\<rparr>,
                                  \<lparr>Name = ''README'', IsDir = False\<rparr>, \<lparr>Name = ''b'', IsDir = True\<rparr>]
                        else Inl (OtherError ''no such directory'')),
      Base = filepath_Base,
      Join = (\<lambda>dir name. dir @ ''/'' @ name)\<rparr>"

section \<open>The row iterator over all repositories\<close>

subsection \<open>Row producers\<close>

text \<open>
  A \<open>RowRepoIter\<close> made by \<open>NewIterator\<close> for one repository is an implementation of
  an interface. It is represented by what its \<open>Next\<close> calls return: the rows still to
  come, then the error that ends them (\<open>io.EOF\<close> at a clean end).
\<close>

datatype 'r producer = Producer (pending: "'r list") (final: error)

fun producer_Next :: "'r producer \<Rightarrow> (error + 'r) \<times> 'r producer" where
  "producer_Next (Producer [] e) = (Inl e, Producer [] e)"
| "producer_Next (Producer (row # rows) e) = (Inr row, Producer rows e)"

text \<open>
  What \<open>NewRowRepoIter\<close> is given besides the pool: the outside world, the
  \<open>NewIterator\<close> of the \<open>RowRepoIter\<close> passed in, which returns a producer (\<open>None\<close> is
  the nil interface) and an error, and \<open>runtime.NumCPU()\<close>.
\<close>

record ('h, 'r) config =
  world :: "'h env"
  NewIterator :: "'h Repository \<Rightarrow> 'r producer option \<times> error option"
  NumCPU :: nat

subsection \<open>The goroutines and their shared state\<close>

text \<open>
  Where \<open>fillRepoChannel\<close> stands: at its \<open>select\<close>, at \<open>i.repos <- repo\<close>, at
  \<open>close(i.done)\<close>, at \<open>close(i.repos)\<close> (with the error it sends afterwards), at
  \<open>i.err <- err\<close>, or returned.
\<close>

datatype 'h feeder_pc =
  FSelect | FSendRepo "'h Repository" | FCloseDone error | FCloseRepos error | FSendErr error
  | FReturned

text \<open>
  Where a \<open>rowReader\<close> stands: at \<open>range i.repos\<close>, at the \<open>select\<close> of its inner loop
  with the producer of the current repository, at \<open>i.rows <- row\<close>, at \<open>i.err <- err\<close>,
  at \<open>close(i.done)\<close>, at the deferred \<open>i.wg.Done()\<close>, or returned.
\<close>

datatype 'r worker_pc =
  WRange | WSelect "'r producer option" | WSendRow 'r "'r producer" | WSendErr error
  | WCloseDone | WDone | WReturned

text \<open>The goroutine that waits for the workers: at \<open>wg.Wait()\<close>, at \<open>close(rows)\<close>, returned.\<close>

datatype join_pc = JWait | JCloseRows | JReturned

text \<open>
  The caller of \<open>Next\<close> of the row iterator: outside a call, inside at \<open><-i.rows\<close>, or
  inside at \<open><-i.err\<close>.
\<close>

datatype consumer_pc = CIdle | CRecvRows | CRecvErr

datatype panic =
  NilNext | NilClose | CloseOfClosedChannel | SendOnClosedChannel | IndexOutOfRange
  | NegativeWaitGroup

text \<open>
  The \<open>rowRepoIter\<close> with its goroutines. The four channels are unbuffered, so a channel
  is the flag whether it is closed (\<open>err\<close> is never closed); \<open>returned\<close> lists what the
  calls of \<open>Next\<close> have returned so far, a row as \<open>Inr\<close> and an error as \<open>Inl\<close>.
\<close>

record ('h, 'r) rowRepoIter =
  repositoryIter :: RepositoryIter
  feeder :: "'h feeder_pc"
  workers :: "'r worker_pc list"
  wg :: nat
  joiner :: join_pc
  consumer :: consumer_pc
  returned :: "(error + 'r) list"
  done_closed :: bool
  repos_closed :: bool
  rows_closed :: bool
  panicked :: "panic option"

definition NewRowRepoIter :: "('h, 'r) config \<Rightarrow> RepositoryPool \<Rightarrow> ('h, 'r) rowRepoIter" where
  "NewRowRepoIter c p =
     \<lparr>repositoryIter = RepoIter p, feeder = FSelect, workers = replicate (NumCPU c) WRange,
      wg = NumCPU c, joiner = JWait, consumer = CIdle, returned = [],
      done_closed = False, repos_closed = False, rows_closed = False, panicked = None\<rparr>"

definition set_worker :: "('h, 'r) rowRepoIter \<Rightarrow> nat \<Rightarrow> 'r worker_pc \<Rightarrow> ('h, 'r) rowRepoIter" where
  "set_worker s w pc = s\<lparr>workers := (workers s)[w := pc]\<rparr>"

definition raise_panic :: "('h, 'r) rowRepoIter \<Rightarrow> panic \<Rightarrow> ('h, 'r) rowRepoIter" where
  "raise_panic s x = s\<lparr>panicked := Some x\<rparr>"

subsection \<open>The steps of the goroutines\<close>

text \<open>
  Each function is one step of one goroutine, or one communication over an unbuffered
  channel, which is a step of the sender and the receiver together. The result is \<open>None\<close>
  when the step cannot be taken: the goroutine is blocked or has returned.
\<close>

text \<open>\<open>fillRepoChannel\<close> on its own.\<close>

definition feeder_step :: "('h, 'r) config \<Rightarrow> ('h, 'r) rowRepoIter \<Rightarrow> ('h, 'r) rowRepoIter option" where
  "feeder_step c s =
     (case feeder s of
        FSelect \<Rightarrow>
          if done_closed s then Some (s\<lparr>feeder := FReturned\<rparr>)
          else
            (case RepositoryIter_Next (world c) (repositoryIter s) of
               (Panic, i') \<Rightarrow> Some (raise_panic s IndexOutOfRange)
             | (Return (Inr repo), i') \<Rightarrow> Some (s\<lparr>repositoryIter := i', feeder := FSendRepo repo\<rparr>)
             | (Return (Inl err), i') \<Rightarrow>
                 if err = EOF then Some (s\<lparr>repositoryIter := i', feeder := FCloseRepos EOF\<rparr>)
                 else Some (s\<lparr>repositoryIter := i', feeder := FCloseDone err\<rparr>))
      | FSendRepo repo \<Rightarrow>
          if repos_closed s then Some (raise_panic s SendOnClosedChannel) else None
      | FCloseDone err \<Rightarrow>
          if done_closed s then Some (raise_panic s CloseOfClosedChannel)
          else Some (s\<lparr>done_closed := True, feeder := FCloseRepos err\<rparr>)
      | FCloseRepos err \<Rightarrow>
          if repos_closed s then Some (raise_panic s CloseOfClosedChannel)
          else Some (s\<lparr>repos_closed := True, feeder := FSendErr err\<rparr>)
      | FSendErr err \<Rightarrow> None
      | FReturned \<Rightarrow> None)"

text \<open>
  \<open>rowReader\<close> number \<open>w\<close> on its own. At the \<open>select\<close>, a closed \<open>done\<close> is taken first;
  otherwise \<open>Next\<close> of the producer is called. A method call on the nil interface panics.
\<close>

definition worker_step ::
  "('h, 'r) config \<Rightarrow> nat \<Rightarrow> ('h, 'r) rowRepoIter \<Rightarrow> ('h, 'r) rowRepoIter option" where
  "worker_step c w s =
     (case workers s ! w of
        WRange \<Rightarrow> if repos_closed s then Some (set_worker s w WDone) else None
      | WSelect iter \<Rightarrow>
          if done_closed s then
            (case iter of
               None \<Rightarrow> Some (raise_panic s NilClose)
             | Some p \<Rightarrow> Some (set_worker s w WDone))
          else
            (case iter of
               None \<Rightarrow> Some (raise_panic s NilNext)
             | Some p \<Rightarrow>
                 (case producer_Next p of
                    (Inr row, p') \<Rightarrow> Some (set_worker s w (WSendRow row p'))
                  | (Inl err, p') \<Rightarrow>
                      if err = EOF then Some (set_worker s w WRange)
                      else Some (set_worker s w (WSendErr err))))
      | WSendRow row p \<Rightarrow>
          if rows_closed s then Some (raise_panic s SendOnClosedChannel) else None
      | WSendErr err \<Rightarrow> None
      | WCloseDone \<Rightarrow>
          if done_closed s then Some (raise_panic s CloseOfClosedChannel)
          else Some ((set_worker s w WDone)\<lparr>done_closed := True\<rparr>)
      | WDone \<Rightarrow>
          if wg s = 0 then Some (raise_panic s NegativeWaitGroup)
          else Some ((set_worker s w WReturned)\<lparr>wg := wg s - 1\<rparr>)
      | WReturned \<Rightarrow> None)"

text \<open>The goroutine of \<open>NewRowRepoIter\<close> that waits for the workers and closes \<open>rows\<close>.\<close>

definition join_step :: "('h, 'r) rowRepoIter \<Rightarrow> ('h, 'r) rowRepoIter option" where
  "join_step s =
     (case joiner s of
        JWait \<Rightarrow> if wg s = 0 then Some (s\<lparr>joiner := JCloseRows\<rparr>) else None
      | JCloseRows \<Rightarrow>
          if rows_closed s then Some (raise_panic s CloseOfClosedChannel)
          else Some (s\<lparr>rows_closed := True, joiner := JReturned\<rparr>)
      | JReturned \<Rightarrow> None)"

text \<open>
  The caller on its own: it calls \<open>Next\<close>, and inside \<open>Next\<close> it finds \<open>rows\<close> closed and
  goes on to \<open><-i.err\<close>.
\<close>

definition consumer_step :: "('h, 'r) rowRepoIter \<Rightarrow> ('h, 'r) rowRepoIter option" where
  "consumer_step s =
     (case consumer s of
        CIdle \<Rightarrow> Some (s\<lparr>consumer := CRecvRows\<rparr>)
      | CRecvRows \<Rightarrow> if rows_closed s then Some (s\<lparr>consumer := CRecvErr\<rparr>) else None
      | CRecvErr \<Rightarrow> None)"

text \<open>
  \<open>i.repos <- repo\<close> meets \<open>range i.repos\<close> of worker \<open>w\<close>. The worker then calls
  \<open>NewIterator\<close> and keeps the producer only: \<open>iter, _ := i.iter.NewIterator(repo)\<close>.
\<close>

definition send_repo ::
  "('h, 'r) config \<Rightarrow> nat \<Rightarrow> ('h, 'r) rowRepoIter \<Rightarrow> ('h, 'r) rowRepoIter option" where
  "send_repo c w s =
     (case (feeder s, workers s ! w) of
        (FSendRepo repo, WRange) \<Rightarrow>
          if repos_closed s then None
          else Some ((set_worker s w (WSelect (fst (NewIterator c repo))))\<lparr>feeder := FSelect\<rparr>)
      | _ \<Rightarrow> None)"

text \<open>\<open>i.rows <- row\<close> of worker \<open>w\<close> meets \<open><-i.rows\<close> in \<open>Next\<close>, which returns the row.\<close>

definition send_row :: "nat \<Rightarrow> ('h, 'r) rowRepoIter \<Rightarrow> ('h, 'r) rowRepoIter option" where
  "send_row w s =
     (case (workers s ! w, consumer s) of
        (WSendRow row p, CRecvRows) \<Rightarrow>
          if rows_closed s then None
          else Some ((set_worker s w (WSelect (Some p)))
                       \<lparr>consumer := CIdle, returned := returned s @ [Inr row]\<rparr>)
      | _ \<Rightarrow> None)"

text \<open>\<open>i.err <- err\<close> of the feeder meets \<open><-i.err\<close> in \<open>Next\<close>, which returns the error.\<close>

definition send_err_feeder :: "('h, 'r) rowRepoIter \<Rightarrow> ('h, 'r) rowRepoIter option" where
  "send_err_feeder s =
     (case (feeder s, consumer s) of
        (FSendErr err, CRecvErr) \<Rightarrow>
          Some (s\<lparr>feeder := FReturned, consumer := CIdle, returned := returned s @ [Inl err]\<rparr>)
      | _ \<Rightarrow> None)"

text \<open>\<open>i.err <- err\<close> of worker \<open>w\<close> meets \<open><-i.err\<close> in \<open>Next\<close>.\<close>

definition send_err_worker :: "nat \<Rightarrow> ('h, 'r) rowRepoIter \<Rightarrow> ('h, 'r) rowRepoIter option" where
  "send_err_worker w s =
     (case (workers s ! w, consumer s) of
        (WSendErr err, CRecvErr) \<Rightarrow>
          Some ((set_worker s w WCloseDone)
                  \<lparr>consumer := CIdle, returned := returned s @ [Inl err]\<rparr>)
      | _ \<Rightarrow> None)"

text \<open>
  A schedule names the step taken at each moment. After a panic the program is gone, and
  there is no worker beyond the \<open>NumCPU\<close> started.
\<close>

datatype label =
  Feeder | Worker nat | Joiner | Consumer | SendRepo nat | SendRow nat | SendErrFeeder
  | SendErrWorker nat

fun label_worker :: "label \<Rightarrow> nat option" where
  "label_worker (Worker w) = Some w"
| "label_worker (SendRepo w) = Some w"
| "label_worker (SendRow w) = Some w"
| "label_worker (SendErrWorker w) = Some w"
| "label_worker _ = None"

definition fire ::
  "('h, 'r) config \<Rightarrow> label \<Rightarrow> ('h, 'r) rowRepoIter \<Rightarrow> ('h, 'r) rowRepoIter option" where
  "fire c l s =
     (if panicked s \<noteq> None then None
      else if (case label_worker l of Some w \<Rightarrow> length (workers s) \<le> w | None \<Rightarrow> False) then None
      else
        (case l of
           Feeder \<Rightarrow> feeder_step c s
         | Worker w \<Rightarrow> worker_step c w s
         | Joiner \<Rightarrow> join_step s
         | Consumer \<Rightarrow> consumer_step s
         | SendRepo w \<Rightarrow> send_repo c w s
         | SendRow w \<Rightarrow> send_row w s
         | SendErrFeeder \<Rightarrow> send_err_feeder s
         | SendErrWorker w \<Rightarrow> send_err_worker w s))"

text \<open>Running a schedule from a state; \<open>None\<close> when it names a step that cannot be taken.\<close>

fun exec ::
  "('h, 'r) config \<Rightarrow> label list \<Rightarrow> ('h, 'r) rowRepoIter \<Rightarrow> ('h, 'r) rowRepoIter option" where
  "exec c [] s = Some s"
| "exec c (l # ls) s = (case fire c l s of None \<Rightarrow> None | Some s' \<Rightarrow> exec c ls s')"

subsection \<open>What holds in every state of every run\<close>

text \<open>The number of workers that have not returned.\<close>

definition active :: "'r worker_pc list \<Rightarrow> nat" where
  "active ws = length (filter (\<lambda>pc. pc \<noteq> WReturned) ws)"

text \<open>
  The wait group counts the workers that have not returned; the joiner is past
  \<open>wg.Wait()\<close> only when there are none; \<open>rows\<close> is closed when the joiner has
  returned, and only then; the caller is at \<open><-i.err\<close> only when \<open>rows\<close> is closed;
  and \<open>Next\<close> has returned an error only when \<open>rows\<close> is closed.
\<close>

definition join_inv :: "('h, 'r) rowRepoIter \<Rightarrow> bool" where
  "join_inv s \<longleftrightarrow>
     wg s = active (workers s) \<and>
     (joiner s \<noteq> JWait \<longrightarrow> wg s = 0) \<and>
     (rows_closed s \<longrightarrow> joiner s = JReturned) \<and>
     (joiner s = JReturned \<longrightarrow> rows_closed s) \<and>
     (consumer s = CRecvErr \<longrightarrow> rows_closed s) \<and>
     ((\<exists>e. Inl e \<in> set (returned s)) \<longrightarrow> rows_closed s)"


subsection \<open>The sequential run the pipeline is compared with\<close>

text \<open>
  The rows of a sequential run, repository by repository: take the repositories from the
  repository iterator until it returns an error, make the producer of each and call its
  \<open>Next\<close> until it returns an error. The run goes on to the next repository after
  \<open>io.EOF\<close> and stops at a producer that is nil or ends in another error.
\<close>

function sequential_rows :: "('h, 'r) config \<Rightarrow> RepositoryIter \<Rightarrow> 'r list list" where
  "sequential_rows c i =
     (case fst (RepositoryIter_Next (world c) i) of
        Return (Inr repo) \<Rightarrow>
          (case fst (NewIterator c repo) of
             None \<Rightarrow> []
           | Some p \<Rightarrow>
               pending p #
               (if final p = EOF then sequential_rows c (snd (RepositoryIter_Next (world c) i))
                else []))
      | _ \<Rightarrow> [])"
  by pat_completeness auto
termination
  by (relation "measure (\<lambda>(c, i). nat (int (len_repositories (pool i)) - pos i))")
     (auto simp: RepositoryIter_Next_def GetPos_def Let_def split: if_splits outcome.splits sum.splits)

text \<open>
  \<open>ys\<close> is an interleaving of the lists \<open>xss\<close>: it takes every element of every list, and
  those of one list in the order of that list.
\<close>

fun is_interleaving :: "'a list list \<Rightarrow> 'a list \<Rightarrow> bool" where
  "is_interleaving xss [] = (\<forall>xs \<in> set xss. xs = [])"
| "is_interleaving xss (y # ys) =
     (\<exists>k \<in> set [0..<length xss].
        xss ! k \<noteq> [] \<and> hd (xss ! k) = y \<and> is_interleaving (xss[k := tl (xss ! k)]) ys)"

text \<open>The rows among what \<open>Next\<close> has returned, in order.\<close>

fun rows_of :: "(error + 'r) list \<Rightarrow> 'r list" where
  "rows_of [] = []"
| "rows_of (Inl e # xs) = rows_of xs"
| "rows_of (Inr row # xs) = row # rows_of xs"

subsection \<open>Runs without failure\<close>

text \<open>
  The setting of a run in which nothing fails: the pool satisfies its invariant, every
  registered path opens, \<open>NewIterator\<close> gives for every repository the pool yields a
  producer that ends with \<open>io.EOF\<close>, and there is at least one worker.
\<close>

definition clean_setup :: "('h, 'r) config \<Rightarrow> RepositoryPool \<Rightarrow> bool" where
  "clean_setup c p \<longleftrightarrow>
     pool_inv p \<and>
     (\<forall>ident \<in> set (idOrder p).
        \<exists>path h. fmlookup (repositories p) ident = Some path \<and> PlainOpen (world c) path = Inr h) \<and>
     (\<forall>k repo. GetPos (world c) p k = Return (Inr repo) \<longrightarrow>
        (\<exists>rows. fst (NewIterator c repo) = Some (Producer rows EOF))) \<and>
     0 < NumCPU c"

text \<open>The repository iterator has nothing more to give.\<close>

definition at_end :: "('h, 'r) config \<Rightarrow> RepositoryIter \<Rightarrow> bool" where
  "at_end c i \<longleftrightarrow> fst (RepositoryIter_Next (world c) i) = Return (Inl EOF)"

text \<open>
  Where the feeder can stand in such a run, and what holds there of \<open>repos\<close> being
  closed, \<open>rows\<close> being closed and the repository iterator being at its end.
\<close>

fun feeder_ok ::
  "('h, 'r) config \<Rightarrow> RepositoryPool \<Rightarrow> bool \<Rightarrow> bool \<Rightarrow> bool \<Rightarrow> 'h feeder_pc \<Rightarrow> bool" where
  "feeder_ok c p repos rows ended FSelect = (\<not> repos)"
| "feeder_ok c p repos rows ended (FSendRepo repo) =
     (\<not> repos \<and> (\<exists>k. GetPos (world c) p k = Return (Inr repo)))"
| "feeder_ok c p repos rows ended (FCloseDone err) = False"
| "feeder_ok c p repos rows ended (FCloseRepos err) = (err = EOF \<and> \<not> repos \<and> ended)"
| "feeder_ok c p repos rows ended (FSendErr err) = (err = EOF \<and> repos \<and> ended)"
| "feeder_ok c p repos rows ended FReturned = (repos \<and> rows \<and> ended)"

text \<open>Where a worker can stand in such a run.\<close>

fun worker_ok :: "bool \<Rightarrow> 'r worker_pc \<Rightarrow> bool" where
  "worker_ok closed WRange = True"
| "worker_ok closed (WSelect iter) = (case iter of None \<Rightarrow> False | Some pr \<Rightarrow> final pr = EOF)"
| "worker_ok closed (WSendRow row pr) = (final pr = EOF)"
| "worker_ok closed (WSendErr err) = False"
| "worker_ok closed WCloseDone = False"
| "worker_ok closed WDone = closed"
| "worker_ok closed WReturned = closed"

text \<open>
  What holds in every state of a run without failure: no panic, \<open>done\<close> open, the feeder
  and the workers where they can stand (a worker leaves its loop only when \<open>repos\<close> is
  closed), and \<open>Next\<close> has returned rows only, followed by \<open>io.EOF\<close> once the feeder has
  handed it over.
\<close>

definition clean_inv :: "('h, 'r) config \<Rightarrow> RepositoryPool \<Rightarrow> ('h, 'r) rowRepoIter \<Rightarrow> bool" where
  "clean_inv c p s \<longleftrightarrow>
     panicked s = None \<and> \<not> done_closed s \<and>
     pool (repositoryIter s) = p \<and> 0 \<le> pos (repositoryIter s) \<and>
     feeder_ok c p (repos_closed s) (rows_closed s) (at_end c (repositoryIter s)) (feeder s) \<and>
     (\<forall>pc \<in> set (workers s). worker_ok (repos_closed s) pc) \<and>
     length (workers s) = NumCPU c \<and>
     returned s = map Inr (rows_of (returned s)) @ (if feeder s = FReturned then [Inl EOF] else [])"

subsection \<open>The rows still to come\<close>

text \<open>
  \<open>interleaves M ys\<close>: the list \<open>ys\<close> takes every element of every list of the multiset
  \<open>M\<close>, those of one list in the order of that list.
\<close>

inductive interleaves :: "'a list multiset \<Rightarrow> 'a list \<Rightarrow> bool" where
  finished: "interleaves {#} []"
| skip: "interleaves M ys \<Longrightarrow> interleaves (add_mset [] M) ys"
| take: "interleaves (add_mset xs M) ys \<Longrightarrow> interleaves (add_mset (x # xs) M) (x # ys)"

text \<open>The rows a worker has still to send for its current repository.\<close>

fun worker_piece :: "'r worker_pc \<Rightarrow> 'r list" where
  "worker_piece (WSelect (Some pr)) = pending pr"
| "worker_piece (WSendRow row pr) = row # pending pr"
| "worker_piece _ = []"

text \<open>The rows of the repository the feeder is handing over.\<close>

fun feeder_pieces :: "('h, 'r) config \<Rightarrow> 'h feeder_pc \<Rightarrow> 'r list multiset" where
  "feeder_pieces c (FSendRepo repo) =
     (case fst (NewIterator c repo) of None \<Rightarrow> {#} | Some pr \<Rightarrow> {#pending pr#})"
| "feeder_pieces c _ = {#}"

text \<open>
  All rows still to come, repository by repository: those of the workers, of the feeder
  and of the repositories not yet fetched.
\<close>

definition pieces :: "('h, 'r) config \<Rightarrow> ('h, 'r) rowRepoIter \<Rightarrow> 'r list multiset" where
  "pieces c s =
     mset (map worker_piece (workers s)) + feeder_pieces c (feeder s) +
     mset (sequential_rows c (repositoryIter s))"

text \<open>
  Whatever order the rows still to come are returned in, the rows returned so far followed
  by them interleave the rows of the repositories of the pool.
\<close>

definition order_inv :: "('h, 'r) config \<Rightarrow> RepositoryPool \<Rightarrow> ('h, 'r) rowRepoIter \<Rightarrow> bool" where
  "order_inv c p s \<longleftrightarrow>
     (\<forall>rest. interleaves (pieces c s) rest \<longrightarrow>
        interleaves (pieces c (NewRowRepoIter c p)) (rows_of (returned s) @ rest))"

subsection \<open>A bound on the length of a run without failure\<close>

definition repo_cost :: "'r list \<Rightarrow> nat" where
  "repo_cost rows = 3 * length rows + 4"

fun feeder_rank :: "('h, 'r) config \<Rightarrow> 'h feeder_pc \<Rightarrow> nat" where
  "feeder_rank c FSelect = 5"
| "feeder_rank c (FSendRepo repo) =
     (case fst (NewIterator c repo) of None \<Rightarrow> 0 | Some pr \<Rightarrow> 4 + repo_cost (pending pr))"
| "feeder_rank c (FCloseDone err) = 5"
| "feeder_rank c (FCloseRepos err) = 4"
| "feeder_rank c (FSendErr err) = 3"
| "feeder_rank c FReturned = 0"

fun worker_rank :: "'r worker_pc \<Rightarrow> nat" where
  "worker_rank WRange = 2"
| "worker_rank (WSelect iter) = (case iter of None \<Rightarrow> 0 | Some pr \<Rightarrow> 3 * length (pending pr) + 3)"
| "worker_rank (WSendRow row pr) = 3 * length (pending pr) + 5"
| "worker_rank (WSendErr err) = 0"
| "worker_rank WCloseDone = 0"
| "worker_rank WDone = 1"
| "worker_rank WReturned = 0"

fun join_rank :: "join_pc \<Rightarrow> nat" where
  "join_rank JWait = 2"
| "join_rank JCloseRows = 1"
| "join_rank JReturned = 0"

fun consumer_rank :: "consumer_pc \<Rightarrow> nat" where
  "consumer_rank CIdle = 2"
| "consumer_rank CRecvRows = 1"
| "consumer_rank CRecvErr = 0"

text \<open>The number of steps a run without failure can still take, at most.\<close>

definition run_measure :: "('h, 'r) config \<Rightarrow> ('h, 'r) rowRepoIter \<Rightarrow> nat" where
  "run_measure c s =
     sum_list (map repo_cost (sequential_rows c (repositoryIter s))) + feeder_rank c (feeder s) +
     sum_list (map worker_rank (workers s)) + join_rank (joiner s) + consumer_rank (consumer s)"

subsection \<open>Small pipelines\<close>

text \<open>The pool of the two repositories under \<open>/srv\<close>.\<close>

definition example_pool :: RepositoryPool where
  "example_pool = snd (AddDir example_env NewRepositoryPool ''/srv'')"

text \<open>Two workers; repository \<open>a\<close> yields the rows 1 and 2, any other the row 3.\<close>

definition example_config :: "(unit, nat) config" where
  "example_config =
     \<lparr>world = example_env,
      NewIterator = (\<lambda>repo. (Some (Producer (if ID repo = ''a'' then [1, 2] else [3]) EOF), None)),
      NumCPU = 2\<rparr>"

text \<open>One worker; every producer yields the row 1 and then fails.\<close>

definition failing_config :: "(unit, nat) config" where
  "failing_config =
     \<lparr>world = example_env,
      NewIterator = (\<lambda>repo. (Some (Producer [1] (OtherError ''corrupt object'')), None)),
      NumCPU = 1\<rparr>"

text \<open>One worker; \<open>NewIterator\<close> fails on repository \<open>b\<close> and returns no producer.\<close>

definition nil_config :: "(unit, nat) config" where
  "nil_config =
     \<lparr>world = example_env,
      NewIterator = (\<lambda>repo. if ID repo = ''b'' then (None, Some (OtherError ''no commits''))
                            else (Some (Producer [1] EOF), None)),
      NumCPU = 1\<rparr>"

text \<open>
  The failing pipeline after the worker has delivered the row of repository \<open>a\<close> and its
  producer has failed: the worker stands at \<open>i.err <- err\<close>.
\<close>

definition blocked_state :: "(unit, nat) rowRepoIter" where
  "blocked_state =
     \<lparr>repositoryIter = \<lparr>pos = 1, pool = example_pool\<rparr>, feeder = FSelect,
      workers = [WSendErr (OtherError ''corrupt object'')], wg = 1, joiner = JWait,
      consumer = CIdle, returned = [Inr 1],
      done_closed = False, repos_closed = False, rows_closed = False, panicked = None\<rparr>"

text \<open>
  The same pipeline once the feeder has fetched repository \<open>b\<close> and the caller has
  called \<open>Next\<close> again.
\<close>

definition deadlocked_state :: "(unit, nat) rowRepoIter" where
  "deadlocked_state =
     \<lparr>repositoryIter = \<lparr>pos = 2, pool = example_pool\<rparr>,
      feeder = FSendRepo \<lparr>ID = ''b'', Repo = ()\<rparr>,
      workers = [WSendErr (OtherError ''corrupt object'')], wg = 1, joiner = JWait,
      consumer = CRecvRows, returned = [Inr 1],
      done_closed = False, repos_closed = False, rows_closed = False, panicked = None\<rparr>"

text \<open>A pool whose second path is no repository.\<close>

definition broken_pool :: RepositoryPool where
  "broken_pool = Add (Add NewRepositoryPool ''a'' ''/srv/a'') ''x'' ''/srv/x''"


text \<open>
  A schedule of the two-worker pipeline over the pool of \<open>/srv\<close> that runs it to the end,
  and the state it ends in: \<open>Next\<close> has returned the rows 3, 1 and 2 and then \<open>io.EOF\<close>.
\<close>

definition example_run :: "label list" where
  "example_run =
     [Feeder, SendRepo 0, Feeder, SendRepo 1, Feeder, Feeder, Consumer, Worker 0, Worker 1,
      SendRow 1, Consumer, SendRow 0, Worker 0, Consumer, SendRow 0, Worker 0, Worker 0,
      Worker 0, Worker 1, Worker 1, Worker 1, Joiner, Joiner, Consumer, Consumer, SendErrFeeder]"

definition finished_state :: "(unit, nat) rowRepoIter" where
  "finished_state =
     \<lparr>repositoryIter = \<lparr>pos = 2, pool = example_pool\<rparr>, feeder = FReturned,
      workers = [WReturned, WReturned], wg = 0, joiner = JReturned,
      consumer = CIdle, returned = [Inr 3, Inr 1, Inr 2, Inl EOF],
      done_closed = False, repos_closed = True, rows_closed = True, panicked = None\<rparr>"

text \<open>
  The pipeline whose \<open>NewIterator\<close> fails on repository \<open>b\<close>, when its worker is through
  with repository \<open>a\<close> and the feeder offers it repository \<open>b\<close>.
\<close>

definition nil_fed_state :: "(unit, nat) rowRepoIter" where
  "nil_fed_state =
     \<lparr>repositoryIter = \<lparr>pos = 2, pool = example_pool\<rparr>,
      feeder = FSendRepo \<lparr>ID = ''b'', Repo = ()\<rparr>,
      workers = [WRange], wg = 1, joiner = JWait,
      consumer = CIdle, returned = [Inr 1],
      done_closed = False, repos_closed = False, rows_closed = False, panicked = None\<rparr>"

text \<open>
  A schedule of the two-worker pipeline over the pool with the path that is no repository:
  worker 0 delivers the first row of repository \<open>a\<close>, the feeder fails on the second
  path and cancels, the workers return and the caller is handed the feeder's error.
\<close>

definition feeder_error_run :: "label list" where
  "feeder_error_run =
     [Feeder, SendRepo 0, Feeder, Consumer, Worker 0, SendRow 0, Feeder, Feeder, Worker 0,
      Worker 0, Worker 1, Worker 1, Joiner, Joiner, Consumer, Consumer, SendErrFeeder]"

section \<open>Properties\<close>

subsection \<open>The invariant of the pool\<close>

lemma Add_idOrder: "idOrder (Add p ident path) = (if ident |\<in>| fmdom (repositories p) then idOrder p else idOrder p @ [ident])"
  by (auto simp: Add_def Let_def fmdom_notI fmdom_notD)

lemma Add_repositories: "repositories (Add p ident path) = fmupd ident path (repositories p)"
  by (simp add: Add_def Let_def)

lemma pool_inv_New: "pool_inv NewRepositoryPool"
  by (simp add: pool_inv_def NewRepositoryPool_def)

lemma pool_inv_Add: "pool_inv p \<Longrightarrow> pool_inv (Add p ident path)"
  by (auto simp: pool_inv_def Add_idOrder Add_repositories)

lemma pool_inv_AddGit: "pool_inv p \<Longrightarrow> pool_inv (snd (AddGit env p path))"
  by (simp add: AddGit_def Let_def pool_inv_Add split: sum.splits)

lemma pool_inv_AddDir_loop: "pool_inv p \<Longrightarrow> pool_inv (AddDir_loop env path p dirs)"
  by (induction dirs arbitrary: p) (simp_all add: pool_inv_AddGit)

lemma pool_inv_AddDir: "pool_inv p \<Longrightarrow> pool_inv (snd (AddDir env p path))"
  by (simp add: AddDir_def pool_inv_AddDir_loop split: sum.splits)

lemma pool_inv_apply: "pool_inv p \<Longrightarrow> pool_inv (apply_pool_op p x)"
  by (cases x) (simp_all add: pool_inv_Add pool_inv_AddGit pool_inv_AddDir)

lemma pool_inv_foldl: "pool_inv p \<Longrightarrow> pool_inv (foldl apply_pool_op p ops)"
  by (induction ops arbitrary: p) (simp_all add: pool_inv_apply)

lemma pool_inv_pool_after: "pool_inv (pool_after ops)"
  by (simp add: pool_after_def pool_inv_foldl pool_inv_New)

lemma pool_inv_len: "pool_inv p \<Longrightarrow> len_repositories p = length (idOrder p)"
  unfolding pool_inv_def len_repositories_def fcard.rep_eq
  by (metis distinct_card)

subsection \<open>Positions and bounds\<close>

lemma len_pool_after: "len_repositories (pool_after ops) = length (idOrder (pool_after ops))"
  by (rule pool_inv_len [OF pool_inv_pool_after])

text \<open>
  Claim C3. \<open>GetPos\<close> at a position that is not below the number of registered
  identifiers returns \<open>io.EOF\<close> and no repository: for any pool value when the number is
  the size of the map (the bound the code checks), for any pool built by the exported
  operations when it is the length of the ordered sequence, and for the empty pool at
  position 0.
\<close>

theorem GetPos_beyond_count:
  "(int (len_repositories p) \<le> k \<longrightarrow> GetPos env p k = Return (Inl EOF)) \<and>
   (int (length (idOrder (pool_after ops))) \<le> k \<longrightarrow>
      GetPos env (pool_after ops) k = Return (Inl EOF)) \<and>
   GetPos env NewRepositoryPool 0 = Return (Inl EOF)"
  by (simp add: GetPos_def len_pool_after) (simp add: len_repositories_def NewRepositoryPool_def)

lemma ex_open [simp]: "PlainOpen example_env ''/srv/a'' = Inr ()" "PlainOpen example_env ''/srv/b'' = Inr ()"
  "PlainOpen example_env ''/srv/x'' = Inl ErrRepositoryNotExists"
  by (simp_all add: example_env_def)

theorem GetPos_beyond_count_witness:
  "int (len_repositories (Add (Add NewRepositoryPool ''0'' ''/srv/x'') ''1'' ''/srv/a'')) \<le> 2 \<and>
   GetPos example_env (Add (Add NewRepositoryPool ''0'' ''/srv/x'') ''1'' ''/srv/a'') 2 = Return (Inl EOF) \<and>
   int (length (idOrder (pool_after [OpAdd ''0'' ''/srv/x'', OpAdd ''1'' ''/srv/a'' :: unit pool_op]))) \<le> 2 \<and>
   GetPos example_env (pool_after [OpAdd ''0'' ''/srv/x'', OpAdd ''1'' ''/srv/a'' :: unit pool_op]) 2 = Return (Inl EOF)"
  using GetPos_beyond_count [where p = "Add (Add NewRepositoryPool ''0'' ''/srv/x'') ''1'' ''/srv/a''" and k = 2
       and ops = "[OpAdd ''0'' ''/srv/x'', OpAdd ''1'' ''/srv/a'' :: unit pool_op]" and env = example_env]
  by (simp add: len_repositories_def Add_def NewRepositoryPool_def pool_after_def fcard_finsert_if)

lemma pool_inv_lookup: "pool_inv p \<Longrightarrow> ident \<in> set (idOrder p) \<Longrightarrow> fmlookup (repositories p) ident \<noteq> None"
  by (metis fmdom_notI pool_inv_def)

lemma GetPos_no_panic: "pool_inv p \<Longrightarrow> 0 \<le> k \<Longrightarrow> GetPos env p k \<noteq> Panic"
  by (simp add: GetPos_def Let_def pool_inv_len)

lemma GetPos_negative: "k < 0 \<Longrightarrow> GetPos env p k = Panic"
  by (simp add: GetPos_def)

text \<open>
  Claim C4, where the code departs from it. In every pool built from \<open>NewRepositoryPool\<close>
  by \<open>Add\<close>, \<open>AddGit\<close> and \<open>AddDir\<close> calls, every identifier of the ordered sequence
  has an entry in the map, the sequence has no duplicates, and the size of the map is the
  length of the sequence. For a position from 0 the bound check of \<open>GetPos\<close> then keeps
  the index within the sequence and \<open>GetPos\<close> does not panic. A negative position passes
  the bound check as well, since the check has no lower bound, and there
  \<open>p.idOrder[pos]\<close> panics: \<open>GetPos\<close> at \<open>-1\<close> panics on every such pool, where its
  documentation promises \<open>io.EOF\<close> for a position out of bounds.
\<close>

theorem pool_invariant:
  "(\<forall>ident \<in> set (idOrder (pool_after ops)). fmlookup (repositories (pool_after ops)) ident \<noteq> None) \<and>
   distinct (idOrder (pool_after ops)) \<and>
   len_repositories (pool_after ops) = length (idOrder (pool_after ops)) \<and>
   (\<forall>k. 0 \<le> k \<longrightarrow>
        GetPos env (pool_after ops) k \<noteq> Panic \<and>
        (k < int (len_repositories (pool_after ops)) \<longrightarrow> nat k < length (idOrder (pool_after ops)))) \<and>
   (\<forall>k. k < 0 \<longrightarrow>
        k < int (len_repositories (pool_after ops)) \<and> GetPos env (pool_after ops) k = Panic) \<and>
   GetPos env (pool_after ops) (- 1) = Panic \<and>
   GetPos env (pool_after ops) (- 1) \<noteq> Return (Inl EOF)"
proof -
  have inv: "pool_inv (pool_after ops)" by (rule pool_inv_pool_after)
  have 1: "\<forall>ident \<in> set (idOrder (pool_after ops)). fmlookup (repositories (pool_after ops)) ident \<noteq> None"
    using inv by (simp add: pool_inv_lookup)
  have 2: "distinct (idOrder (pool_after ops))" using inv by (simp add: pool_inv_def)
  have 3: "len_repositories (pool_after ops) = length (idOrder (pool_after ops))"
    by (rule len_pool_after)
  have 4: "\<forall>k. 0 \<le> k \<longrightarrow>
        GetPos env (pool_after ops) k \<noteq> Panic \<and>
        (k < int (len_repositories (pool_after ops)) \<longrightarrow> nat k < length (idOrder (pool_after ops)))"
    using GetPos_no_panic [OF inv] 3 by auto
  have 5: "\<forall>k. k < 0 \<longrightarrow>
        k < int (len_repositories (pool_after ops)) \<and> GetPos env (pool_after ops) k = Panic"
    by (simp add: GetPos_negative)
  have 6: "GetPos env (pool_after ops) (- 1) = Panic" by (simp add: GetPos_negative)
  then have 7: "GetPos env (pool_after ops) (- 1) \<noteq> Return (Inl EOF)" by simp
  from 1 2 3 4 5 6 7 show ?thesis by blast
qed

lemma ex_ReadDir [simp]: "ReadDir example_env ''/srv'' = Inr [\<lparr>Name = ''a'', IsDir = True\<rparr>, \<lparr>Name = ''docs'', IsDir = True\<rparr>,
                                  \<lparr>Name = ''README'', IsDir = False\<rparr>, \<lparr>Name = ''b'', IsDir = True\<rparr>]"
  "ReadDir example_env ''/nowhere'' = Inl (OtherError ''no such directory'')"
  by (simp_all add: example_env_def)

lemma ex_Join [simp]: "Join example_env d n = d @ ''/'' @ n"
  by (simp add: example_env_def)

lemma ex_Base [simp]: "Base example_env ''/srv/a'' = ''a''"  "Base example_env ''/srv/b'' = ''b''"
  by (simp_all add: example_env_def filepath_Base_def)

lemma ex_open_docs [simp]: "PlainOpen example_env ''/srv/docs'' = Inl ErrRepositoryNotExists"
  by (simp add: example_env_def)

lemma ex_pool: "pool_after [OpAdd ''a'' ''/tmp/old'', OpAddDir example_env ''/srv'', OpAddGit example_env ''/srv/x'']
   = \<lparr>repositories = fmupd ''b'' ''/srv/b'' (fmupd ''a'' ''/srv/a'' fmempty), idOrder = [''a'', ''b'']\<rparr>"
  by (simp add: pool_after_def NewRepositoryPool_def Add_def AddDir_def AddGit_def Let_def)

theorem pool_invariant_witness:
  "(0::int) \<le> 1 \<and> 1 < int (len_repositories (pool_after [OpAdd ''a'' ''/tmp/old'', OpAddDir example_env ''/srv'', OpAddGit example_env ''/srv/x''])) \<and>
   ''b'' \<in> set (idOrder (pool_after [OpAdd ''a'' ''/tmp/old'', OpAddDir example_env ''/srv'', OpAddGit example_env ''/srv/x''])) \<and>
   fmlookup (repositories (pool_after [OpAdd ''a'' ''/tmp/old'', OpAddDir example_env ''/srv'', OpAddGit example_env ''/srv/x''])) ''b'' \<noteq> None \<and>
   GetPos example_env (pool_after [OpAdd ''a'' ''/tmp/old'', OpAddDir example_env ''/srv'', OpAddGit example_env ''/srv/x'']) 1 \<noteq> Panic \<and>
   (- 2 :: int) < 0 \<and>
   - 2 < int (len_repositories (pool_after [OpAdd ''a'' ''/tmp/old'', OpAddDir example_env ''/srv'', OpAddGit example_env ''/srv/x''])) \<and>
   GetPos example_env (pool_after [OpAdd ''a'' ''/tmp/old'', OpAddDir example_env ''/srv'', OpAddGit example_env ''/srv/x'']) (- 2) = Panic \<and>
   GetPos example_env (pool_after [OpAdd ''a'' ''/tmp/old'', OpAddDir example_env ''/srv'', OpAddGit example_env ''/srv/x'']) (- 1) = Panic"
  using pool_invariant [where ops = "[OpAdd ''a'' ''/tmp/old'', OpAddDir example_env ''/srv'', OpAddGit example_env ''/srv/x'']" and env = example_env]
  by (simp add: ex_pool len_repositories_def fcard_finsert_if)

subsection \<open>The empty identifier, repeated Add and the repository iterator\<close>

text \<open>
  Claim C10. When the identifier at a position of the ordered sequence is the empty string,
  \<open>GetPos\<close> at that position returns \<open>io.EOF\<close>, whatever \<open>git.PlainOpen\<close> would do
  with the path stored for it.
\<close>

theorem GetPos_empty_identifier:
  "k < length (idOrder p) \<Longrightarrow> idOrder p ! k = '''' \<Longrightarrow> GetPos env p (int k) = Return (Inl EOF)"
  by (simp add: GetPos_def)

theorem GetPos_empty_identifier_witness:
  "0 < length (idOrder (Add NewRepositoryPool '''' ''/srv/a'')) \<and>
   idOrder (Add NewRepositoryPool '''' ''/srv/a'') ! 0 = '''' \<and>
   (0::int) < int (len_repositories (Add NewRepositoryPool '''' ''/srv/a'')) \<and>
   fmlookup (repositories (Add NewRepositoryPool '''' ''/srv/a'')) '''' = Some ''/srv/a'' \<and>
   PlainOpen example_env ''/srv/a'' = Inr () \<and>
   GetPos example_env (Add NewRepositoryPool '''' ''/srv/a'') (int 0) = Return (Inl EOF)"
  using GetPos_empty_identifier [where p = "Add NewRepositoryPool '''' ''/srv/a''" and k = 0 and env = example_env]
  by (simp add: Add_def NewRepositoryPool_def len_repositories_def fcard_finsert_if)

theorem Add_twice_empty_identifier_counterexample:
  "''/srv/b'' \<noteq> ''/srv/a'' \<and>
   idOrder (Add (Add NewRepositoryPool '''' ''/srv/a'') '''' ''/srv/b'') ! 0 = '''' \<and>
   NewRepositoryFromPath example_env '''' ''/srv/b'' = Inr \<lparr>ID = '''', Repo = ()\<rparr> \<and>
   GetPos example_env (Add (Add NewRepositoryPool '''' ''/srv/a'') '''' ''/srv/b'') 0 = Return (Inl EOF) \<and>
   GetPos example_env (Add (Add NewRepositoryPool '''' ''/srv/a'') '''' ''/srv/b'') 0
     \<noteq> Return (NewRepositoryFromPath example_env '''' ''/srv/b'')"
  by (simp add: GetPos_def Add_def NewRepositoryPool_def len_repositories_def fcard_finsert_if
        NewRepositoryFromPath_def NewRepository_def Let_def)

lemma Add_Add_idOrder: "idOrder (Add (Add p ident loc1) ident loc2) = idOrder (Add p ident loc1)"
  by (simp add: Add_idOrder Add_repositories)

lemma Add_mem_idOrder: "pool_inv p \<Longrightarrow> ident \<in> set (idOrder (Add p ident loc))"
  by (auto simp: Add_idOrder pool_inv_def)

lemma GetPos_at_ident:
  assumes inv: "pool_inv p" and k: "k < length (idOrder p)" and ne: "idOrder p ! k \<noteq> ''''"
    and look: "fmlookup (repositories p) (idOrder p ! k) = Some loc"
  shows "GetPos env p (int k) = Return (NewRepositoryFromPath env (idOrder p ! k) loc)"
  using k ne look by (simp add: GetPos_def pool_inv_len [OF inv] Let_def)

text \<open>
  Claim C5, amended. After \<open>Add ident loc1\<close> and \<open>Add ident loc2\<close> on a pool built by the
  exported operations, the ordered sequence is the one after the first \<open>Add\<close>, the
  identifier has a position in it, and, when the identifier is not the empty string,
  \<open>GetPos\<close> at that position opens \<open>loc2\<close>: it returns what
  \<open>NewRepositoryFromPath ident loc2\<close> returns.
\<close>

theorem Add_twice:
  "idOrder (Add (Add (pool_after ops) ident loc1) ident loc2) = idOrder (Add (pool_after ops) ident loc1) \<and>
   (\<exists>k < length (idOrder (Add (Add (pool_after ops) ident loc1) ident loc2)).
       idOrder (Add (Add (pool_after ops) ident loc1) ident loc2) ! k = ident) \<and>
   (ident \<noteq> '''' \<longrightarrow>
     (\<forall>k. k < length (idOrder (Add (Add (pool_after ops) ident loc1) ident loc2)) \<and>
          idOrder (Add (Add (pool_after ops) ident loc1) ident loc2) ! k = ident \<longrightarrow>
          GetPos env (Add (Add (pool_after ops) ident loc1) ident loc2) (int k)
            = Return (NewRepositoryFromPath env ident loc2)))"
proof -
  let ?p2 = "Add (Add (pool_after ops) ident loc1) ident loc2"
  have inv: "pool_inv ?p2" by (simp add: pool_inv_Add pool_inv_pool_after)
  have a: "idOrder ?p2 = idOrder (Add (pool_after ops) ident loc1)" by (rule Add_Add_idOrder)
  have "ident \<in> set (idOrder ?p2)"
    by (rule Add_mem_idOrder) (simp add: pool_inv_Add pool_inv_pool_after)
  then have b: "\<exists>k < length (idOrder ?p2). idOrder ?p2 ! k = ident"
    by (simp add: in_set_conv_nth)
  have look: "fmlookup (repositories ?p2) ident = Some loc2" by (simp add: Add_repositories)
  have c: "ident \<noteq> '''' \<longrightarrow> (\<forall>k. k < length (idOrder ?p2) \<and> idOrder ?p2 ! k = ident \<longrightarrow>
          GetPos env ?p2 (int k) = Return (NewRepositoryFromPath env ident loc2))"
  proof (intro impI allI)
    fix k
    assume ne: "ident \<noteq> ''''" and k: "k < length (idOrder ?p2) \<and> idOrder ?p2 ! k = ident"
    from k ne look have "GetPos env ?p2 (int k) = Return (NewRepositoryFromPath env (idOrder ?p2 ! k) loc2)"
      by (intro GetPos_at_ident [OF inv]) simp_all
    with k show "GetPos env ?p2 (int k) = Return (NewRepositoryFromPath env ident loc2)" by simp
  qed
  from a b c show ?thesis by blast
qed

theorem Add_twice_witness:
  "''a'' \<noteq> '''' \<and> (0::nat) < length (idOrder (Add (Add (pool_after ([] :: unit pool_op list)) ''a'' ''/srv/x'') ''a'' ''/srv/b'')) \<and>
   idOrder (Add (Add (pool_after ([] :: unit pool_op list)) ''a'' ''/srv/x'') ''a'' ''/srv/b'') ! 0 = ''a'' \<and>
   GetPos example_env (Add (Add (pool_after ([] :: unit pool_op list)) ''a'' ''/srv/x'') ''a'' ''/srv/b'') (int 0)
     = Return (Inr \<lparr>ID = ''a'', Repo = ()\<rparr>)"
  using Add_twice [where ops = "[] :: unit pool_op list" and ident = "''a''" and ?loc1.0 = "''/srv/x''"
      and ?loc2.0 = "''/srv/b''" and env = example_env]
  by (simp add: pool_after_def Add_def NewRepositoryPool_def NewRepositoryFromPath_def NewRepository_def)






subsection \<open>AddGit and AddDir\<close>

text \<open>
  Claim C7. \<open>AddGit\<close> on a path that does not open returns the error of the open and the
  pool unchanged. On a path that opens it returns \<open>filepath.Base\<close> of the path and no
  error, the pool is the one \<open>Add\<close> gives for that identifier and the path, the map sends
  the identifier to the path, and, in a pool that satisfies its invariant, the identifier is
  in the ordered sequence.
\<close>

theorem AddGit_cases:
  "(PlainOpen env path = Inl e \<longrightarrow> AddGit env p path = (Inl e, p)) \<and>
   (PlainOpen env path = Inr h \<longrightarrow>
      fst (AddGit env p path) = Inr (Base env path) \<and>
      snd (AddGit env p path) = Add p (Base env path) path \<and>
      fmlookup (repositories (snd (AddGit env p path))) (Base env path) = Some path \<and>
      (pool_inv p \<longrightarrow> Base env path \<in> set (idOrder (snd (AddGit env p path)))))"
  by (simp add: AddGit_def Let_def Add_repositories Add_mem_idOrder)

theorem AddGit_cases_witness:
  "PlainOpen example_env ''/srv/x'' = Inl ErrRepositoryNotExists \<and>
   AddGit example_env (Add NewRepositoryPool ''a'' ''/tmp/old'') ''/srv/x'' = (Inl ErrRepositoryNotExists, Add NewRepositoryPool ''a'' ''/tmp/old'') \<and>
   PlainOpen example_env ''/srv/b'' = Inr () \<and> pool_inv (Add NewRepositoryPool ''a'' ''/tmp/old'') \<and>
   AddGit example_env (Add NewRepositoryPool ''a'' ''/tmp/old'') ''/srv/b'' = (Inr ''b'', Add (Add NewRepositoryPool ''a'' ''/tmp/old'') ''b'' ''/srv/b'') \<and>
   ''b'' \<in> set (idOrder (snd (AddGit example_env (Add NewRepositoryPool ''a'' ''/tmp/old'') ''/srv/b'')))"
  using AddGit_cases [where env = example_env and path = "''/srv/x''" and e = ErrRepositoryNotExists and p = "Add NewRepositoryPool ''a'' ''/tmp/old''"]
        AddGit_cases [where env = example_env and path = "''/srv/b''" and h = "()" and p = "Add NewRepositoryPool ''a'' ''/tmp/old''"]
        pool_inv_Add [OF pool_inv_New, of "''a''" "''/tmp/old''"]
  by (simp add: prod_eq_iff Add_idOrder Add_repositories NewRepositoryPool_def)

lemma AddDir_loop_foldl:
  "AddDir_loop env path p dirs = foldl (\<lambda>q loc. Add q (Base env loc) loc) p (valid_subdirs env path dirs)"
  by (induction dirs arbitrary: p) (auto simp: valid_subdirs_def AddGit_def Let_def split: sum.splits)

lemma foldl_Add_dom:
  "fmdom (repositories (foldl (\<lambda>q loc. Add q (f loc) loc) p locs)) = fmdom (repositories p) |\<union>| fset_of_list (map f locs)"
  by (induction locs arbitrary: p) (auto simp: Add_repositories)

lemma foldl_Add_idOrder:
  "distinct (map f locs) \<Longrightarrow> \<forall>l \<in> set locs. f l |\<notin>| fmdom (repositories p) \<Longrightarrow>
   idOrder (foldl (\<lambda>q loc. Add q (f loc) loc) p locs) = idOrder p @ map f locs"
proof (induction locs arbitrary: p)
  case Nil
  then show ?case by simp
next
  case (Cons a locs)
  have fresh: "\<forall>l \<in> set locs. f l |\<notin>| fmdom (repositories (Add p (f a) a))"
    using Cons.prems by (auto simp: Add_repositories intro: rev_image_eqI)
  have "idOrder (foldl (\<lambda>q loc. Add q (f loc) loc) (Add p (f a) a) locs) = idOrder (Add p (f a) a) @ map f locs"
    using Cons.prems fresh by (intro Cons.IH) simp_all
  then show ?case using Cons.prems by (simp add: Add_idOrder)
qed

lemma foldl_Add_len:
  "distinct (map f locs) \<Longrightarrow> \<forall>l \<in> set locs. f l |\<notin>| fmdom (repositories p) \<Longrightarrow>
   len_repositories (foldl (\<lambda>q loc. Add q (f loc) loc) p locs) = len_repositories p + length locs"
proof (induction locs arbitrary: p)
  case Nil
  then show ?case by simp
next
  case (Cons a locs)
  have fresh: "\<forall>l \<in> set locs. f l |\<notin>| fmdom (repositories (Add p (f a) a))"
    using Cons.prems by (auto simp: Add_repositories intro: rev_image_eqI)
  have "len_repositories (foldl (\<lambda>q loc. Add q (f loc) loc) (Add p (f a) a) locs)
          = len_repositories (Add p (f a) a) + length locs"
    using Cons.prems fresh by (intro Cons.IH) simp_all
  then show ?case using Cons.prems
    by (simp add: Add_repositories len_repositories_def fcard_finsert_if)
qed

text \<open>
  Claim C8. When the listing of the path succeeds, \<open>AddDir\<close> returns no error and the
  pool is the one obtained by \<open>Add\<close> for each entry that is a directory and opens as a
  repository, in listing order, and for no other entry: the keys of the map are the old
  keys and the identifiers of those entries, and when these identifiers are distinct and
  new the sequence grows by exactly them. When the listing fails, \<open>AddDir\<close> returns that
  error and the pool unchanged; it returns an error in no other case.
\<close>

theorem AddDir_registers_valid:
  "(ReadDir env path = Inr dirs \<longrightarrow>
      fst (AddDir env p path) = None \<and>
      snd (AddDir env p path) = foldl (\<lambda>q loc. Add q (Base env loc) loc) p (valid_subdirs env path dirs) \<and>
      fmdom (repositories (snd (AddDir env p path)))
        = fmdom (repositories p) |\<union>| fset_of_list (map (Base env) (valid_subdirs env path dirs)) \<and>
      (distinct (map (Base env) (valid_subdirs env path dirs)) \<and>
       (\<forall>loc \<in> set (valid_subdirs env path dirs). Base env loc |\<notin>| fmdom (repositories p)) \<longrightarrow>
         idOrder (snd (AddDir env p path)) = idOrder p @ map (Base env) (valid_subdirs env path dirs) \<and>
         len_repositories (snd (AddDir env p path)) = len_repositories p + length (valid_subdirs env path dirs))) \<and>
   (ReadDir env path = Inl e \<longrightarrow> AddDir env p path = (Some e, p)) \<and>
   (fst (AddDir env p path) \<noteq> None \<longleftrightarrow> (\<exists>e'. ReadDir env path = Inl e'))"
proof -
  have 1: "ReadDir env path = Inr dirs \<longrightarrow> fst (AddDir env p path) = None"
    by (simp add: AddDir_def)
  have 2: "ReadDir env path = Inr dirs \<longrightarrow>
      snd (AddDir env p path) = foldl (\<lambda>q loc. Add q (Base env loc) loc) p (valid_subdirs env path dirs)"
    by (simp add: AddDir_def AddDir_loop_foldl)
  have 3: "ReadDir env path = Inr dirs \<longrightarrow> fmdom (repositories (snd (AddDir env p path)))
        = fmdom (repositories p) |\<union>| fset_of_list (map (Base env) (valid_subdirs env path dirs))"
    using 2 by (simp add: foldl_Add_dom)
  have 4: "ReadDir env path = Inr dirs \<longrightarrow> (distinct (map (Base env) (valid_subdirs env path dirs)) \<and>
       (\<forall>loc \<in> set (valid_subdirs env path dirs). Base env loc |\<notin>| fmdom (repositories p)) \<longrightarrow>
         idOrder (snd (AddDir env p path)) = idOrder p @ map (Base env) (valid_subdirs env path dirs) \<and>
         len_repositories (snd (AddDir env p path)) = len_repositories p + length (valid_subdirs env path dirs))"
    using 2 by (simp add: foldl_Add_idOrder foldl_Add_len)
  have 5: "ReadDir env path = Inl e \<longrightarrow> AddDir env p path = (Some e, p)"
    by (simp add: AddDir_def)
  have 6: "fst (AddDir env p path) \<noteq> None \<longleftrightarrow> (\<exists>e'. ReadDir env path = Inl e')"
    by (simp add: AddDir_def split: sum.splits)
  from 1 2 3 4 5 6 show ?thesis by blast
qed

lemma ex_valid: "valid_subdirs example_env ''/srv'' [\<lparr>Name = ''a'', IsDir = True\<rparr>, \<lparr>Name = ''docs'', IsDir = True\<rparr>,
                                  \<lparr>Name = ''README'', IsDir = False\<rparr>, \<lparr>Name = ''b'', IsDir = True\<rparr>] = [''/srv/a'', ''/srv/b'']"
  by (simp add: valid_subdirs_def)

theorem AddDir_registers_valid_witness:
  "ReadDir example_env ''/srv'' = Inr [\<lparr>Name = ''a'', IsDir = True\<rparr>, \<lparr>Name = ''docs'', IsDir = True\<rparr>,
                                  \<lparr>Name = ''README'', IsDir = False\<rparr>, \<lparr>Name = ''b'', IsDir = True\<rparr>] \<and>
   valid_subdirs example_env ''/srv'' [\<lparr>Name = ''a'', IsDir = True\<rparr>, \<lparr>Name = ''docs'', IsDir = True\<rparr>,
                                  \<lparr>Name = ''README'', IsDir = False\<rparr>, \<lparr>Name = ''b'', IsDir = True\<rparr>] = [''/srv/a'', ''/srv/b''] \<and>
   AddDir example_env (Add NewRepositoryPool ''z'' ''/tmp/z'') ''/srv''
     = (None, Add (Add (Add NewRepositoryPool ''z'' ''/tmp/z'') ''a'' ''/srv/a'') ''b'' ''/srv/b'') \<and>
   idOrder (snd (AddDir example_env (Add NewRepositoryPool ''z'' ''/tmp/z'') ''/srv'')) = [''z'', ''a'', ''b''] \<and>
   len_repositories (snd (AddDir example_env (Add NewRepositoryPool ''z'' ''/tmp/z'') ''/srv'')) = 3 \<and>
   ReadDir example_env ''/nowhere'' = Inl (OtherError ''no such directory'') \<and>
   AddDir example_env (Add NewRepositoryPool ''z'' ''/tmp/z'') ''/nowhere''
     = (Some (OtherError ''no such directory''), Add NewRepositoryPool ''z'' ''/tmp/z'')"
  using AddDir_registers_valid [where env = example_env and path = "''/srv''" and p = "Add NewRepositoryPool ''z'' ''/tmp/z''"
          and dirs = "[\<lparr>Name = ''a'', IsDir = True\<rparr>, \<lparr>Name = ''docs'', IsDir = True\<rparr>,
                                  \<lparr>Name = ''README'', IsDir = False\<rparr>, \<lparr>Name = ''b'', IsDir = True\<rparr>]"]
        AddDir_registers_valid [where env = example_env and path = "''/nowhere''" and p = "Add NewRepositoryPool ''z'' ''/tmp/z''"
          and e = "OtherError ''no such directory''"]
  by (simp add: ex_valid prod_eq_iff Add_repositories Add_idOrder NewRepositoryPool_def len_repositories_def fcard_finsert_if)

subsection \<open>The steps, case by case\<close>

lemma feeder_step_cases [consumes 1, case_names cancelled index_panic repo eof error send_closed
    close_done_panic close_done close_repos_panic close_repos]:
  assumes "feeder_step c s = Some s'"
  obtains
    (cancelled) "feeder s = FSelect" "done_closed s" "s' = s\<lparr>feeder := FReturned\<rparr>"
  | (index_panic) "feeder s = FSelect" "\<not> done_closed s"
      "fst (RepositoryIter_Next (world c) (repositoryIter s)) = Panic"
      "s' = raise_panic s IndexOutOfRange"
  | (repo) repo i' where "feeder s = FSelect" "\<not> done_closed s"
      "RepositoryIter_Next (world c) (repositoryIter s) = (Return (Inr repo), i')"
      "s' = s\<lparr>repositoryIter := i', feeder := FSendRepo repo\<rparr>"
  | (eof) i' where "feeder s = FSelect" "\<not> done_closed s"
      "RepositoryIter_Next (world c) (repositoryIter s) = (Return (Inl EOF), i')"
      "s' = s\<lparr>repositoryIter := i', feeder := FCloseRepos EOF\<rparr>"
  | (error) err i' where "feeder s = FSelect" "\<not> done_closed s" "err \<noteq> EOF"
      "RepositoryIter_Next (world c) (repositoryIter s) = (Return (Inl err), i')"
      "s' = s\<lparr>repositoryIter := i', feeder := FCloseDone err\<rparr>"
  | (send_closed) repo where "feeder s = FSendRepo repo" "repos_closed s"
      "s' = raise_panic s SendOnClosedChannel"
  | (close_done_panic) err where "feeder s = FCloseDone err" "done_closed s"
      "s' = raise_panic s CloseOfClosedChannel"
  | (close_done) err where "feeder s = FCloseDone err" "\<not> done_closed s"
      "s' = s\<lparr>done_closed := True, feeder := FCloseRepos err\<rparr>"
  | (close_repos_panic) err where "feeder s = FCloseRepos err" "repos_closed s"
      "s' = raise_panic s CloseOfClosedChannel"
  | (close_repos) err where "feeder s = FCloseRepos err" "\<not> repos_closed s"
      "s' = s\<lparr>repos_closed := True, feeder := FSendErr err\<rparr>"
proof (cases "feeder s")
  case FSelect
  show ?thesis
  proof (cases "done_closed s")
    case True
    with FSelect assms show ?thesis by (intro cancelled) (simp_all add: feeder_step_def)
  next
    case False
    show ?thesis
    proof (cases "RepositoryIter_Next (world c) (repositoryIter s)")
      case (Pair r i')
      show ?thesis
      proof (cases r)
        case Panic
        with Pair False FSelect assms show ?thesis
          by (intro index_panic) (simp_all add: feeder_step_def)
      next
        case (Return x)
        show ?thesis
        proof (cases x)
          case (Inl err)
          show ?thesis
          proof (cases "err = EOF")
            case True
            with Inl Return Pair False FSelect assms show ?thesis
              by (intro eof [of i']) (simp_all add: feeder_step_def)
          next
            case False
            with Inl Return Pair \<open>\<not> done_closed s\<close> FSelect assms show ?thesis
              by (intro error [of err i']) (simp_all add: feeder_step_def)
          qed
        next
          case (Inr repo)
          with Return Pair False FSelect assms show ?thesis
            by (intro repo [of repo i']) (simp_all add: feeder_step_def)
        qed
      qed
    qed
  qed
next
  case (FSendRepo repo)
  with assms show ?thesis by (intro send_closed [of repo]) (simp_all add: feeder_step_def split: if_splits)
next
  case (FCloseDone err)
  with assms show ?thesis
    by (cases "done_closed s") (simp_all add: feeder_step_def close_done_panic close_done)
next
  case (FCloseRepos err)
  with assms show ?thesis
    by (cases "repos_closed s") (simp_all add: feeder_step_def close_repos_panic close_repos)
next
  case (FSendErr err)
  with assms show ?thesis by (simp add: feeder_step_def)
next
  case FReturned
  with assms show ?thesis by (simp add: feeder_step_def)
qed

lemma worker_step_cases [consumes 1, case_names range_closed cancelled nil_close nil_next row eof
    error send_closed close_done_panic close_done wg_panic wg_done]:
  assumes "worker_step c w s = Some s'"
  obtains
    (range_closed) "workers s ! w = WRange" "repos_closed s" "s' = set_worker s w WDone"
  | (cancelled) p where "workers s ! w = WSelect (Some p)" "done_closed s" "s' = set_worker s w WDone"
  | (nil_close) "workers s ! w = WSelect None" "done_closed s" "s' = raise_panic s NilClose"
  | (nil_next) "workers s ! w = WSelect None" "\<not> done_closed s" "s' = raise_panic s NilNext"
  | (row) p row p' where "workers s ! w = WSelect (Some p)" "\<not> done_closed s"
      "producer_Next p = (Inr row, p')" "s' = set_worker s w (WSendRow row p')"
  | (eof) p p' where "workers s ! w = WSelect (Some p)" "\<not> done_closed s"
      "producer_Next p = (Inl EOF, p')" "s' = set_worker s w WRange"
  | (error) p err p' where "workers s ! w = WSelect (Some p)" "\<not> done_closed s" "err \<noteq> EOF"
      "producer_Next p = (Inl err, p')" "s' = set_worker s w (WSendErr err)"
  | (send_closed) row p where "workers s ! w = WSendRow row p" "rows_closed s"
      "s' = raise_panic s SendOnClosedChannel"
  | (close_done_panic) "workers s ! w = WCloseDone" "done_closed s"
      "s' = raise_panic s CloseOfClosedChannel"
  | (close_done) "workers s ! w = WCloseDone" "\<not> done_closed s"
      "s' = (set_worker s w WDone)\<lparr>done_closed := True\<rparr>"
  | (wg_panic) "workers s ! w = WDone" "wg s = 0" "s' = raise_panic s NegativeWaitGroup"
  | (wg_done) "workers s ! w = WDone" "wg s \<noteq> 0" "s' = (set_worker s w WReturned)\<lparr>wg := wg s - 1\<rparr>"
proof (cases "workers s ! w")
  case WRange
  with assms show ?thesis by (intro range_closed) (simp_all add: worker_step_def split: if_splits)
next
  case (WSelect iter)
  show ?thesis
  proof (cases iter)
    case None
    with WSelect assms show ?thesis
      by (cases "done_closed s") (simp_all add: worker_step_def nil_close nil_next)
  next
    case (Some p)
    show ?thesis
    proof (cases "done_closed s")
      case True
      with Some WSelect assms show ?thesis by (intro cancelled [of p]) (simp_all add: worker_step_def)
    next
      case False
      show ?thesis
      proof (cases "producer_Next p")
        case (Pair r p')
        show ?thesis
        proof (cases r)
          case (Inl err)
          show ?thesis
          proof (cases "err = EOF")
            case True
            with Inl Pair False Some WSelect assms show ?thesis
              by (intro eof [of p p']) (simp_all add: worker_step_def)
          next
            case False
            with Inl Pair \<open>\<not> done_closed s\<close> Some WSelect assms show ?thesis
              by (intro error [of p err p']) (simp_all add: worker_step_def)
          qed
        next
          case (Inr row)
          with Pair False Some WSelect assms show ?thesis
            by (intro row [of p row p']) (simp_all add: worker_step_def)
        qed
      qed
    qed
  qed
next
  case (WSendRow row p)
  with assms show ?thesis by (intro send_closed [of row p]) (simp_all add: worker_step_def split: if_splits)
next
  case (WSendErr err)
  with assms show ?thesis by (simp add: worker_step_def)
next
  case WCloseDone
  with assms show ?thesis
    by (cases "done_closed s") (simp_all add: worker_step_def close_done_panic close_done)
next
  case WDone
  with assms show ?thesis
    by (cases "wg s = 0") (simp_all add: worker_step_def wg_panic wg_done)
next
  case WReturned
  with assms show ?thesis by (simp add: worker_step_def)
qed

lemma join_step_cases [consumes 1, case_names wait close_panic close]:
  assumes "join_step s = Some s'"
  obtains
    (wait) "joiner s = JWait" "wg s = 0" "s' = s\<lparr>joiner := JCloseRows\<rparr>"
  | (close_panic) "joiner s = JCloseRows" "rows_closed s" "s' = raise_panic s CloseOfClosedChannel"
  | (close) "joiner s = JCloseRows" "\<not> rows_closed s" "s' = s\<lparr>rows_closed := True, joiner := JReturned\<rparr>"
  using assms by (cases "joiner s") (auto simp: join_step_def split: if_splits)

lemma consumer_step_cases [consumes 1, case_names call closed]:
  assumes "consumer_step s = Some s'"
  obtains
    (call) "consumer s = CIdle" "s' = s\<lparr>consumer := CRecvRows\<rparr>"
  | (closed) "consumer s = CRecvRows" "rows_closed s" "s' = s\<lparr>consumer := CRecvErr\<rparr>"
  using assms by (cases "consumer s") (auto simp: consumer_step_def split: if_splits)

lemma send_repo_cases [consumes 1, case_names send_repo]:
  assumes "send_repo c w s = Some s'"
  obtains repo where "feeder s = FSendRepo repo" "workers s ! w = WRange" "\<not> repos_closed s"
    "s' = (set_worker s w (WSelect (fst (NewIterator c repo))))\<lparr>feeder := FSelect\<rparr>"
  using assms
  by (cases "feeder s"; cases "workers s ! w") (auto simp: send_repo_def split: if_splits)

lemma send_row_cases [consumes 1, case_names send_row]:
  assumes "send_row w s = Some s'"
  obtains row p where "workers s ! w = WSendRow row p" "consumer s = CRecvRows" "\<not> rows_closed s"
    "s' = (set_worker s w (WSelect (Some p)))\<lparr>consumer := CIdle, returned := returned s @ [Inr row]\<rparr>"
  using assms
  by (cases "workers s ! w"; cases "consumer s") (auto simp: send_row_def split: if_splits)

lemma send_err_feeder_cases [consumes 1, case_names send_err_feeder]:
  assumes "send_err_feeder s = Some s'"
  obtains err where "feeder s = FSendErr err" "consumer s = CRecvErr"
    "s' = s\<lparr>feeder := FReturned, consumer := CIdle, returned := returned s @ [Inl err]\<rparr>"
  using assms
  by (cases "feeder s"; cases "consumer s") (auto simp: send_err_feeder_def)

lemma send_err_worker_cases [consumes 1, case_names send_err_worker]:
  assumes "send_err_worker w s = Some s'"
  obtains err where "workers s ! w = WSendErr err" "consumer s = CRecvErr"
    "s' = (set_worker s w WCloseDone)\<lparr>consumer := CIdle, returned := returned s @ [Inl err]\<rparr>"
  using assms
  by (cases "workers s ! w"; cases "consumer s") (auto simp: send_err_worker_def)

lemma fire_cases [consumes 1, case_names feeder worker joiner consumer send_repo send_row
    send_err_feeder send_err_worker]:
  assumes "fire c l s = Some s'"
  obtains
    (feeder) "panicked s = None" "l = Feeder" "feeder_step c s = Some s'"
  | (worker) w where "panicked s = None" "l = Worker w" "w < length (workers s)"
      "worker_step c w s = Some s'"
  | (joiner) "panicked s = None" "l = Joiner" "join_step s = Some s'"
  | (consumer) "panicked s = None" "l = Consumer" "consumer_step s = Some s'"
  | (send_repo) w where "panicked s = None" "l = SendRepo w" "w < length (workers s)"
      "send_repo c w s = Some s'"
  | (send_row) w where "panicked s = None" "l = SendRow w" "w < length (workers s)"
      "send_row w s = Some s'"
  | (send_err_feeder) "panicked s = None" "l = SendErrFeeder" "send_err_feeder s = Some s'"
  | (send_err_worker) w where "panicked s = None" "l = SendErrWorker w" "w < length (workers s)"
      "send_err_worker w s = Some s'"
proof (cases l)
  case Feeder
  with assms show ?thesis by (intro feeder) (simp_all add: fire_def split: if_splits)
next
  case (Worker w)
  with assms show ?thesis by (intro worker [of w]) (simp_all add: fire_def split: if_splits)
next
  case Joiner
  with assms show ?thesis by (intro joiner) (simp_all add: fire_def split: if_splits)
next
  case Consumer
  with assms show ?thesis by (intro consumer) (simp_all add: fire_def split: if_splits)
next
  case (SendRepo w)
  with assms show ?thesis by (intro send_repo [of w]) (simp_all add: fire_def split: if_splits)
next
  case (SendRow w)
  with assms show ?thesis by (intro send_row [of w]) (simp_all add: fire_def split: if_splits)
next
  case SendErrFeeder
  with assms show ?thesis by (intro send_err_feeder) (simp_all add: fire_def split: if_splits)
next
  case (SendErrWorker w)
  with assms show ?thesis by (intro send_err_worker [of w]) (simp_all add: fire_def split: if_splits)
qed

lemma exec_induct_inv:
  assumes step: "\<And>l s s'. I s \<Longrightarrow> fire c l s = Some s' \<Longrightarrow> I s'"
  shows "I s \<Longrightarrow> exec c ls s = Some s' \<Longrightarrow> I s'"
proof (induction ls arbitrary: s)
  case Nil
  then show ?case by simp
next
  case (Cons l ls)
  from Cons.prems(2) obtain s1 where f: "fire c l s = Some s1" and e: "exec c ls s1 = Some s'"
    by (auto split: option.splits)
  from step [OF Cons.prems(1) f] e show ?case by (rule Cons.IH)
qed

subsection \<open>The wait group and the closing of rows\<close>

lemma filter_update_length:
  "i < length xs \<Longrightarrow>
   length (filter P (xs[i := y])) + (if P (xs ! i) then 1 else 0) = length (filter P xs) + (if P y then 1 else 0)"
proof (induction xs arbitrary: i)
  case Nil
  then show ?case by simp
next
  case (Cons x xs)
  show ?case
  proof (cases i)
    case 0
    then show ?thesis by simp
  next
    case (Suc j)
    with Cons.prems have "j < length xs" by simp
    from Cons.IH [OF this] Suc show ?thesis by simp
  qed
qed

lemma active_update:
  "w < length ws \<Longrightarrow>
   active (ws[w := pc]) + (if ws ! w \<noteq> WReturned then 1 else 0) = active ws + (if pc \<noteq> WReturned then 1 else 0)"
  unfolding active_def by (rule filter_update_length)

lemma active_update_same:
  "w < length ws \<Longrightarrow> ws ! w \<noteq> WReturned \<Longrightarrow> pc \<noteq> WReturned \<Longrightarrow> active (ws[w := pc]) = active ws"
  using active_update [of w ws pc] by simp

lemma active_update_WDone:
  "w < length ws \<Longrightarrow> ws ! w = WDone \<Longrightarrow> active (ws[w := WReturned]) = active ws - Suc 0"
  using active_update [of w ws WReturned] by simp

lemma active_zero: "active ws = 0 \<longleftrightarrow> (\<forall>w < length ws. ws ! w = WReturned)"
  unfolding active_def by (auto simp: filter_empty_conv all_set_conv_all_nth)

lemma active_replicate: "active (replicate n WRange) = n"
  by (simp add: active_def)

lemma join_inv_init: "join_inv (NewRowRepoIter c p)"
  by (simp add: join_inv_def NewRowRepoIter_def active_replicate)

lemma join_inv_feeder: "join_inv s \<Longrightarrow> feeder_step c s = Some s' \<Longrightarrow> join_inv s'"
  by (erule feeder_step_cases) (auto simp: join_inv_def raise_panic_def)

lemma join_inv_worker:
  "join_inv s \<Longrightarrow> w < length (workers s) \<Longrightarrow> worker_step c w s = Some s' \<Longrightarrow> join_inv s'"
  by (erule worker_step_cases)
     (auto simp: join_inv_def raise_panic_def set_worker_def active_update_same active_update_WDone)

lemma join_inv_join: "join_inv s \<Longrightarrow> join_step s = Some s' \<Longrightarrow> join_inv s'"
  by (erule join_step_cases) (auto simp: join_inv_def raise_panic_def)

lemma join_inv_consumer: "join_inv s \<Longrightarrow> consumer_step s = Some s' \<Longrightarrow> join_inv s'"
  by (erule consumer_step_cases) (auto simp: join_inv_def)

lemma join_inv_send_repo:
  "join_inv s \<Longrightarrow> w < length (workers s) \<Longrightarrow> send_repo c w s = Some s' \<Longrightarrow> join_inv s'"
  by (erule send_repo_cases) (auto simp: join_inv_def set_worker_def active_update_same)

lemma join_inv_send_row:
  "join_inv s \<Longrightarrow> w < length (workers s) \<Longrightarrow> send_row w s = Some s' \<Longrightarrow> join_inv s'"
  by (erule send_row_cases) (auto simp: join_inv_def set_worker_def active_update_same)

lemma join_inv_send_err_feeder: "join_inv s \<Longrightarrow> send_err_feeder s = Some s' \<Longrightarrow> join_inv s'"
  by (erule send_err_feeder_cases) (auto simp: join_inv_def)

lemma join_inv_send_err_worker:
  "join_inv s \<Longrightarrow> w < length (workers s) \<Longrightarrow> send_err_worker w s = Some s' \<Longrightarrow> join_inv s'"
  by (erule send_err_worker_cases) (auto simp: join_inv_def set_worker_def active_update_same)

lemma join_inv_fire: "join_inv s \<Longrightarrow> fire c l s = Some s' \<Longrightarrow> join_inv s'"
  by (erule fire_cases) (blast intro: join_inv_feeder join_inv_worker join_inv_join join_inv_consumer join_inv_send_repo join_inv_send_row join_inv_send_err_feeder join_inv_send_err_worker)+

lemma join_inv_exec: "join_inv s \<Longrightarrow> exec c ls s = Some s' \<Longrightarrow> join_inv s'"
  by (rule exec_induct_inv [where I = join_inv]) (rule join_inv_fire)

lemma join_inv_reachable: "exec c ls (NewRowRepoIter c p) = Some s \<Longrightarrow> join_inv s"
  by (rule join_inv_exec [OF join_inv_init])

subsection \<open>A worker that has met an error of its producer\<close>

lemma fire_length: "fire c l s = Some s' \<Longrightarrow> length (workers s') = length (workers s)"
  apply (erule fire_cases)
  subgoal by (erule feeder_step_cases) (simp_all add: raise_panic_def)
  subgoal by (erule worker_step_cases) (simp_all add: raise_panic_def set_worker_def)
  subgoal by (erule join_step_cases) (simp_all add: raise_panic_def)
  subgoal by (erule consumer_step_cases) simp_all
  subgoal by (erule send_repo_cases) (simp add: set_worker_def)
  subgoal by (erule send_row_cases) (simp add: set_worker_def)
  subgoal by (erule send_err_feeder_cases) simp
  subgoal by (erule send_err_worker_cases) (simp add: set_worker_def)
  done

lemma join_inv_rows_closed:
  "join_inv s \<Longrightarrow> rows_closed s \<Longrightarrow> w < length (workers s) \<Longrightarrow> workers s ! w = WReturned"
  by (auto simp: join_inv_def active_zero)

lemma blocked_worker_open:
  assumes "join_inv s" "w < length (workers s)" "workers s ! w = WSendErr e"
  shows "\<not> rows_closed s" "consumer s \<noteq> CRecvErr" "Inl e' \<notin> set (returned s)"
proof -
  show r: "\<not> rows_closed s" using assms join_inv_rows_closed [of s w] by auto
  from r assms(1) show "consumer s \<noteq> CRecvErr" by (auto simp: join_inv_def)
  from r assms(1) show "Inl e' \<notin> set (returned s)" by (auto simp: join_inv_def)
qed

lemma blocked_worker_fire:
  assumes inv: "join_inv s" and w: "w < length (workers s)" and pc: "workers s ! w = WSendErr e"
    and f: "fire c l s = Some s'"
  shows "workers s' ! w = WSendErr e"
  using f
proof (cases rule: fire_cases)
  case feeder
  from feeder(3) pc show ?thesis by (cases rule: feeder_step_cases) (simp_all add: raise_panic_def)
next
  case (worker w')
  from worker(4) pc w show ?thesis
    by (cases rule: worker_step_cases; cases "w' = w") (simp_all add: raise_panic_def set_worker_def)
next
  case joiner
  from joiner(3) pc show ?thesis by (cases rule: join_step_cases) (simp_all add: raise_panic_def)
next
  case consumer
  from consumer(3) pc show ?thesis by (cases rule: consumer_step_cases) simp_all
next
  case (send_repo w')
  from send_repo(4) pc w show ?thesis
    by (cases rule: send_repo_cases; cases "w' = w") (simp_all add: set_worker_def)
next
  case (send_row w')
  from send_row(4) pc w show ?thesis
    by (cases rule: send_row_cases; cases "w' = w") (simp_all add: set_worker_def)
next
  case send_err_feeder
  from send_err_feeder(3) pc show ?thesis by (cases rule: send_err_feeder_cases) simp
next
  case (send_err_worker w')
  from send_err_worker(4) blocked_worker_open(2) [OF inv w pc] show ?thesis
    by (cases rule: send_err_worker_cases) simp
qed

lemma blocked_worker_exec:
  assumes "join_inv s \<and> w < length (workers s) \<and> workers s ! w = WSendErr e"
    and "exec c ls s = Some s'"
  shows "join_inv s' \<and> w < length (workers s') \<and> workers s' ! w = WSendErr e"
proof (rule exec_induct_inv [where I = "\<lambda>s. join_inv s \<and> w < length (workers s) \<and> workers s ! w = WSendErr e"])
  fix l t t'
  assume I: "join_inv t \<and> w < length (workers t) \<and> workers t ! w = WSendErr e"
    and f: "fire c l t = Some t'"
  from I f have "join_inv t'" by (blast intro: join_inv_fire)
  moreover from I f have "w < length (workers t')" by (simp add: fire_length)
  moreover from I f have "workers t' ! w = WSendErr e" by (blast intro: blocked_worker_fire)
  ultimately show "join_inv t' \<and> w < length (workers t') \<and> workers t' ! w = WSendErr e" by simp
next
  show "join_inv s \<and> w < length (workers s) \<and> workers s ! w = WSendErr e" by (rule assms(1))
next
  show "exec c ls s = Some s'" by (rule assms(2))
qed

text \<open>
  Claim C2, where the code departs from it. Take any run of the pipeline in which a worker
  has met an error of its producer and stands at \<open>i.err <- err\<close>. In every continuation of
  that run the worker still stands there: \<open>rows\<close> is not closed, the caller is never at
  \<open><-i.err\<close>, the send of the error cannot take place, and \<open>Next\<close> has returned no
  error at all. So \<open>Next\<close> never returns the error of a worker; the claim says it does.
\<close>

theorem worker_error_never_returned:
  assumes "exec c ls (NewRowRepoIter c p) = Some s"
    and "w < length (workers s)" and "workers s ! w = WSendErr e"
    and "exec c ls' s = Some s'"
  shows "workers s' ! w = WSendErr e \<and> \<not> rows_closed s' \<and> consumer s' \<noteq> CRecvErr \<and>
         Inl e' \<notin> set (returned s') \<and> fire c (SendErrWorker w) s' = None"
proof -
  have "join_inv s" using assms(1) by (rule join_inv_reachable)
  with assms have *: "join_inv s' \<and> w < length (workers s') \<and> workers s' ! w = WSendErr e"
    by (intro blocked_worker_exec [of s w e c ls' s']) simp_all
  then have a: "\<not> rows_closed s'" "consumer s' \<noteq> CRecvErr" "Inl e' \<notin> set (returned s')"
    using blocked_worker_open [of s' w e] by blast+
  have "fire c (SendErrWorker w) s' = None"
  proof (cases "fire c (SendErrWorker w) s'")
    case None
    then show ?thesis .
  next
    case (Some t)
    then have "send_err_worker w s' = Some t" by (simp add: fire_def split: if_splits)
    then show ?thesis using a(2) by (cases rule: send_err_worker_cases) simp
  qed
  with * a show ?thesis by simp
qed

subsection \<open>The failing pipeline\<close>

lemma example_pool_eq:
  "example_pool = \<lparr>repositories = fmupd ''b'' ''/srv/b'' (fmupd ''a'' ''/srv/a'' fmempty), idOrder = [''a'', ''b'']\<rparr>"
  by (simp add: example_pool_def AddDir_def AddGit_def Add_def Let_def NewRepositoryPool_def example_env_def filepath_Base_def)

lemma example_pool_len [simp]: "len_repositories example_pool = 2"
  by (simp add: example_pool_eq len_repositories_def fcard_finsert_if)

lemma example_GetPos [simp]:
  "GetPos example_env example_pool 0 = Return (Inr \<lparr>ID = ''a'', Repo = ()\<rparr>)"
  "GetPos example_env example_pool 1 = Return (Inr \<lparr>ID = ''b'', Repo = ()\<rparr>)"
  "GetPos example_env example_pool 2 = Return (Inl EOF)"
  by (simp_all add: GetPos_def) (simp_all add: example_pool_eq NewRepositoryFromPath_def NewRepository_def example_env_def)

lemmas step_defs = fire_def feeder_step_def worker_step_def join_step_def consumer_step_def send_repo_def
  send_row_def send_err_feeder_def send_err_worker_def set_worker_def raise_panic_def
  RepositoryIter_Next_def NewRowRepoIter_def RepoIter_def

lemma failing_run: "exec failing_config [Feeder, SendRepo 0, Consumer, Worker 0, SendRow 0, Worker 0]
     (NewRowRepoIter failing_config example_pool) = Some blocked_state"
  by (simp add: step_defs failing_config_def blocked_state_def)

lemma failing_run2: "exec failing_config [Feeder, Consumer] blocked_state = Some deadlocked_state"
  by (simp add: step_defs failing_config_def blocked_state_def deadlocked_state_def)

lemma deadlocked_state_stuck: "fire failing_config l deadlocked_state = None"
proof (cases l)
  case (Worker w)
  then show ?thesis by (cases w) (simp_all add: step_defs failing_config_def deadlocked_state_def)
next
  case (SendRepo w)
  then show ?thesis by (cases w) (simp_all add: step_defs failing_config_def deadlocked_state_def)
next
  case (SendRow w)
  then show ?thesis by (cases w) (simp_all add: step_defs failing_config_def deadlocked_state_def)
next
  case (SendErrWorker w)
  then show ?thesis by (cases w) (simp_all add: step_defs failing_config_def deadlocked_state_def)
qed (simp_all add: step_defs failing_config_def deadlocked_state_def)

theorem worker_error_never_returned_witness:
  "exec failing_config [Feeder, SendRepo 0, Consumer, Worker 0, SendRow 0, Worker 0]
     (NewRowRepoIter failing_config example_pool) = Some blocked_state \<and>
   0 < length (workers blocked_state) \<and>
   workers blocked_state ! 0 = WSendErr (OtherError ''corrupt object'') \<and>
   exec failing_config [Feeder, Consumer] blocked_state = Some deadlocked_state \<and>
   workers deadlocked_state ! 0 = WSendErr (OtherError ''corrupt object'') \<and>
   \<not> rows_closed deadlocked_state \<and> consumer deadlocked_state \<noteq> CRecvErr \<and>
   Inl (OtherError ''corrupt object'') \<notin> set (returned deadlocked_state) \<and>
   fire failing_config (SendErrWorker 0) deadlocked_state = None"
  using worker_error_never_returned [where c = failing_config and p = example_pool and s = blocked_state
      and s' = deadlocked_state and w = 0 and e = "OtherError ''corrupt object''"
      and e' = "OtherError ''corrupt object''"
      and ls = "[Feeder, SendRepo 0, Consumer, Worker 0, SendRow 0, Worker 0]" and ls' = "[Feeder, Consumer]"]
    failing_run failing_run2
  by (simp add: blocked_state_def)

subsection \<open>Nil producers\<close>



lemma Next_Inl:
  "RepositoryIter_Next env i = (Return (Inl e), i') \<Longrightarrow>
   GetPos env (pool i) (pos i) = Return (Inl e) \<and> i' = i"
  by (auto simp: RepositoryIter_Next_def split: outcome.splits sum.splits)

lemma in_set_updateD: "x \<in> set (xs[i := y]) \<Longrightarrow> x = y \<or> x \<in> set xs"
  using set_update_subset_insert [of xs i y] by auto





subsection \<open>Runs of the small pipelines\<close>

lemma broken_pool_eq:
  "broken_pool = \<lparr>repositories = fmupd ''x'' ''/srv/x'' (fmupd ''a'' ''/srv/a'' fmempty), idOrder = [''a'', ''x'']\<rparr>"
  by (simp add: broken_pool_def Add_def Let_def NewRepositoryPool_def)

lemma broken_GetPos [simp]:
  "GetPos example_env broken_pool 0 = Return (Inr \<lparr>ID = ''a'', Repo = ()\<rparr>)"
  "GetPos example_env broken_pool 1 = Return (Inl ErrRepositoryNotExists)"
  by (simp_all add: GetPos_def)
     (simp_all add: broken_pool_eq len_repositories_def fcard_finsert_if NewRepositoryFromPath_def
        NewRepository_def example_env_def)


lemma example_run_finished:
  "exec example_config example_run (NewRowRepoIter example_config example_pool) = Some finished_state"
  by (simp add: example_run_def step_defs example_config_def finished_state_def numeral_2_eq_2)

lemma nil_run:
  "exec nil_config [Feeder, SendRepo 0, Consumer, Worker 0, SendRow 0, Worker 0, Feeder]
     (NewRowRepoIter nil_config example_pool) = Some nil_fed_state"
  by (simp add: step_defs nil_config_def nil_fed_state_def)


text \<open>
  For comparison: an error of the feeder does reach the caller, after the rows delivered
  before the cancellation.
\<close>

lemma feeder_error_returned:
  "map_option returned (exec example_config feeder_error_run (NewRowRepoIter example_config broken_pool))
     = Some [Inr 1, Inl ErrRepositoryNotExists]"
  by (simp add: feeder_error_run_def step_defs example_config_def numeral_2_eq_2)

subsection \<open>Runs without failure: where the goroutines stand\<close>

declare sequential_rows.simps [simp del]

lemma rows_of_append: "rows_of (xs @ ys) = rows_of xs @ rows_of ys"
  by (induction xs rule: rows_of.induct) simp_all

lemma rows_of_map_Inr: "rows_of (map Inr rows) = rows"
  by (induction rows) simp_all

lemma producer_Next_Inr:
  "producer_Next pr = (Inr row, pr') \<Longrightarrow> pending pr = row # pending pr' \<and> final pr' = final pr"
  by (cases pr; cases "pending pr") auto

lemma producer_Next_Inl:
  "producer_Next pr = (Inl err, pr') \<Longrightarrow> pending pr = [] \<and> err = final pr"
  by (cases pr; cases "pending pr") auto

lemma GetPos_clean:
  assumes "clean_setup c p" "0 \<le> k"
  shows "GetPos (world c) p k = Return (Inl EOF) \<or> (\<exists>repo. GetPos (world c) p k = Return (Inr repo))"
proof (cases "k \<ge> int (len_repositories p)")
  case True
  then show ?thesis by (simp add: GetPos_def)
next
  case False
  from assms(1) have inv: "pool_inv p" by (simp add: clean_setup_def)
  from False assms(2) have k: "nat k < length (idOrder p)" by (simp add: pool_inv_len [OF inv])
  then have "idOrder p ! nat k \<in> set (idOrder p)" by simp
  with assms(1) obtain path h where
    "fmlookup (repositories p) (idOrder p ! nat k) = Some path" "PlainOpen (world c) path = Inr h"
    unfolding clean_setup_def by blast
  with False k assms(2) show ?thesis
    by (simp add: GetPos_def Let_def NewRepositoryFromPath_def pool_inv_len [OF inv])
qed

lemma Next_clean:
  assumes "clean_setup c p" "pool i = p" "0 \<le> pos i"
  shows "RepositoryIter_Next (world c) i = (Return (Inl EOF), i) \<or>
         (\<exists>repo. RepositoryIter_Next (world c) i = (Return (Inr repo), i\<lparr>pos := pos i + 1\<rparr>) \<and>
                 GetPos (world c) p (pos i) = Return (Inr repo))"
  using GetPos_clean [OF assms(1) assms(3)] assms(2)
  by (auto simp: RepositoryIter_Next_def)

lemma worker_ok_mono: "worker_ok b pc \<Longrightarrow> worker_ok True pc"
  by (cases pc) simp_all

lemma join_inv_active:
  "join_inv s \<Longrightarrow> w < length (workers s) \<Longrightarrow> workers s ! w \<noteq> WReturned \<Longrightarrow> wg s \<noteq> 0 \<and> \<not> rows_closed s"
  by (auto simp: join_inv_def active_zero)

lemma clean_worker_ok:
  "clean_inv c p s \<Longrightarrow> w < length (workers s) \<Longrightarrow> worker_ok (repos_closed s) (workers s ! w)"
  by (simp add: clean_inv_def)

lemma clean_inv_init: "clean_setup c p \<Longrightarrow> clean_inv c p (NewRowRepoIter c p)"
  by (simp add: clean_inv_def NewRowRepoIter_def RepoIter_def)

lemma clean_inv_feeder:
  assumes H: "clean_setup c p" and J: "join_inv s" and I: "clean_inv c p s"
    and f: "feeder_step c s = Some s'"
  shows "clean_inv c p s'"
proof -
  from I have i: "pool (repositoryIter s) = p" "0 \<le> pos (repositoryIter s)" by (simp_all add: clean_inv_def)
  note nx = Next_clean [OF H i]
  from f show ?thesis
  proof (cases rule: feeder_step_cases)
    case cancelled
    with I show ?thesis by (simp add: clean_inv_def)
  next
    case index_panic
    with nx show ?thesis by auto
  next
    case (repo repo i')
    with nx I show ?thesis by (auto simp: clean_inv_def)
  next
    case (eof i')
    with nx I show ?thesis by (auto simp: clean_inv_def at_end_def)
  next
    case (error err i')
    with nx show ?thesis by auto
  next
    case (send_closed repo)
    with I show ?thesis by (simp add: clean_inv_def)
  next
    case (close_done_panic err)
    with I show ?thesis by (simp add: clean_inv_def)
  next
    case (close_done err)
    with I show ?thesis by (simp add: clean_inv_def)
  next
    case (close_repos_panic err)
    with I show ?thesis by (simp add: clean_inv_def)
  next
    case (close_repos err)
    with I show ?thesis by (auto simp: clean_inv_def at_end_def intro: worker_ok_mono)
  qed
qed

lemma clean_inv_worker:
  assumes H: "clean_setup c p" and J: "join_inv s" and I: "clean_inv c p s"
    and w: "w < length (workers s)" and f: "worker_step c w s = Some s'"
  shows "clean_inv c p s'"
proof -
  from I w have ok: "worker_ok (repos_closed s) (workers s ! w)" by (simp add: clean_inv_def)
  from I have oks: "\<forall>pc \<in> set (workers s). worker_ok (repos_closed s) pc" by (simp add: clean_inv_def)
  have upd: "\<And>pc. worker_ok (repos_closed s) pc \<Longrightarrow> clean_inv c p (set_worker s w pc)"
    using I w by (auto simp: clean_inv_def set_worker_def dest!: in_set_updateD)
  from f show ?thesis
  proof (cases rule: worker_step_cases)
    case range_closed
    then show ?thesis by (simp add: upd)
  next
    case (cancelled pr)
    with I show ?thesis by (simp add: clean_inv_def)
  next
    case nil_close
    with I show ?thesis by (simp add: clean_inv_def)
  next
    case nil_next
    with ok show ?thesis by simp
  next
    case (row pr row pr')
    with ok producer_Next_Inr [OF row(3)] show ?thesis by (simp add: upd)
  next
    case (eof pr pr')
    then show ?thesis by (simp add: upd)
  next
    case (error pr err pr')
    with ok producer_Next_Inl [OF error(4)] show ?thesis by simp
  next
    case (send_closed row pr)
    with join_inv_active [OF J w] show ?thesis by simp
  next
    case close_done_panic
    with ok show ?thesis by simp
  next
    case close_done
    with ok show ?thesis by simp
  next
    case wg_panic
    with join_inv_active [OF J w] show ?thesis by simp
  next
    case wg_done
    with ok have "clean_inv c p (set_worker s w WReturned)" by (simp add: upd)
    with wg_done show ?thesis by (simp add: clean_inv_def set_worker_def)
  qed
qed

lemma clean_inv_join:
  assumes J: "join_inv s" and I: "clean_inv c p s" and f: "join_step s = Some s'"
  shows "clean_inv c p s'"
  using f
proof (cases rule: join_step_cases)
  case wait
  with I show ?thesis by (simp add: clean_inv_def)
next
  case close_panic
  with J show ?thesis by (simp add: join_inv_def)
next
  case close
  with I show ?thesis by (cases "feeder s") (auto simp: clean_inv_def)
qed

lemma clean_inv_consumer:
  assumes I: "clean_inv c p s" and f: "consumer_step s = Some s'"
  shows "clean_inv c p s'"
  using f I by (cases rule: consumer_step_cases) (simp_all add: clean_inv_def)

lemma clean_inv_send_repo:
  assumes H: "clean_setup c p" and I: "clean_inv c p s"
    and w: "w < length (workers s)" and f: "send_repo c w s = Some s'"
  shows "clean_inv c p s'"
  using f
proof (cases rule: send_repo_cases)
  case (send_repo repo)
  from I send_repo(1) obtain k where "GetPos (world c) p k = Return (Inr repo)"
    by (auto simp: clean_inv_def)
  with H obtain rows where "fst (NewIterator c repo) = Some (Producer rows EOF)"
    unfolding clean_setup_def by blast
  with I w send_repo show ?thesis
    by (auto simp: clean_inv_def set_worker_def dest!: in_set_updateD)
qed

lemma clean_inv_send_row:
  assumes J: "join_inv s" and I: "clean_inv c p s"
    and w: "w < length (workers s)" and f: "send_row w s = Some s'"
  shows "clean_inv c p s'"
  using f
proof (cases rule: send_row_cases)
  case (send_row row pr)
  from clean_worker_ok [OF I w] send_row(1) have ok: "final pr = EOF" by simp
  from I send_row(3) have nr: "feeder s \<noteq> FReturned" by (auto simp: clean_inv_def)
  with I have r: "returned s = map Inr (rows_of (returned s))" by (simp add: clean_inv_def)
  have "returned s @ [Inr row] = map Inr (rows_of (returned s @ [Inr row]))"
    by (subst (1) r) (simp add: rows_of_append rows_of_map_Inr)
  with I w send_row ok nr show ?thesis
    by (auto simp: clean_inv_def set_worker_def dest!: in_set_updateD)
qed

lemma clean_inv_send_err_feeder:
  assumes J: "join_inv s" and I: "clean_inv c p s" and f: "send_err_feeder s = Some s'"
  shows "clean_inv c p s'"
  using f
proof (cases rule: send_err_feeder_cases)
  case (send_err_feeder err)
  from J send_err_feeder(2) have rc: "rows_closed s" by (simp add: join_inv_def)
  from I send_err_feeder(1) have e: "err = EOF" and r: "returned s = map Inr (rows_of (returned s))"
    by (auto simp: clean_inv_def)
  have "returned s @ [Inl EOF] = map Inr (rows_of (returned s @ [Inl EOF])) @ [Inl EOF]"
    by (subst (1) r) (simp add: rows_of_append rows_of_map_Inr)
  with I send_err_feeder rc e show ?thesis
    by (auto simp: clean_inv_def)
qed

lemma clean_inv_send_err_worker:
  assumes I: "clean_inv c p s"
    and w: "w < length (workers s)" and f: "send_err_worker w s = Some s'"
  shows "clean_inv c p s'"
  using f
proof (cases rule: send_err_worker_cases)
  case (send_err_worker err)
  with clean_worker_ok [OF I w] show ?thesis by simp
qed

lemma clean_inv_fire:
  assumes H: "clean_setup c p" and J: "join_inv s" and I: "clean_inv c p s"
    and f: "fire c l s = Some s'"
  shows "clean_inv c p s'"
  using f
proof (cases rule: fire_cases)
  case feeder
  then show ?thesis using clean_inv_feeder [OF H J I] by simp
next
  case (worker w)
  then show ?thesis using clean_inv_worker [OF H J I] by simp
next
  case joiner
  then show ?thesis using clean_inv_join [OF J I] by simp
next
  case consumer
  then show ?thesis using clean_inv_consumer [OF I] by simp
next
  case (send_repo w)
  then show ?thesis using clean_inv_send_repo [OF H I] by simp
next
  case (send_row w)
  then show ?thesis using clean_inv_send_row [OF J I] by simp
next
  case send_err_feeder
  then show ?thesis using clean_inv_send_err_feeder [OF J I] by simp
next
  case (send_err_worker w)
  then show ?thesis using clean_inv_send_err_worker [OF I] by simp
qed

subsection \<open>Runs without failure: the rows still to come\<close>

lemma seq_repo:
  assumes "RepositoryIter_Next (world c) i = (Return (Inr repo), i')"
    and "fst (NewIterator c repo) = Some (Producer rows EOF)"
  shows "sequential_rows c i = rows # sequential_rows c i'"
  using assms by (subst sequential_rows.simps) simp

lemma seq_end: "at_end c i \<Longrightarrow> sequential_rows c i = []"
  by (subst sequential_rows.simps) (simp add: at_end_def)

lemma image_mset_update:
  assumes "w < length ws"
  shows "image_mset f (mset (ws[w := x])) = add_mset (f x) (image_mset f (mset ws) - {#f (ws ! w)#})"
proof -
  from assms have m: "ws ! w \<in># mset ws" by simp
  then have "image_mset f (mset ws - {#ws ! w#}) = image_mset f (mset ws) - {#f (ws ! w)#}"
    by (simp add: image_mset_Diff)
  with assms show ?thesis by (simp add: mset_update)
qed

lemma image_mset_update_same:
  assumes "w < length ws" "f x = f (ws ! w)"
  shows "image_mset f (mset (ws[w := x])) = image_mset f (mset ws)"
proof -
  from assms(1) have "f (ws ! w) \<in># image_mset f (mset ws)" by simp
  with assms show ?thesis by (simp add: image_mset_update)
qed

lemma pieces_same:
  assumes "w < length (workers s)" "worker_piece pc = worker_piece (workers s ! w)"
  shows "pieces c (set_worker s w pc) = pieces c s"
  using assms by (simp add: pieces_def set_worker_def image_mset_update_same)

lemma pieces_take:
  assumes "w < length (workers s)"
  shows "\<exists>M. pieces c s = add_mset (worker_piece (workers s ! w)) M \<and>
             pieces c (set_worker s w pc) = add_mset (worker_piece pc) M"
proof -
  let ?W = "image_mset worker_piece (mset (workers s))"
  let ?R = "feeder_pieces c (feeder s) + mset (sequential_rows c (repositoryIter s))"
  from assms have m: "worker_piece (workers s ! w) \<in># ?W" by simp
  have 1: "pieces c s = add_mset (worker_piece (workers s ! w)) ((?W - {#worker_piece (workers s ! w)#}) + ?R)"
    using m by (simp add: pieces_def)
  have 2: "pieces c (set_worker s w pc) = add_mset (worker_piece pc) ((?W - {#worker_piece (workers s ! w)#}) + ?R)"
    using assms m by (simp add: pieces_def set_worker_def image_mset_update add.assoc)
  from 1 2 show ?thesis by blast
qed

lemma order_inv_init: "order_inv c p (NewRowRepoIter c p)"
  by (simp add: order_inv_def NewRowRepoIter_def)

lemma order_inv_step:
  assumes "order_inv c p s" "rows_of (returned s') = rows_of (returned s) @ extra"
    and "\<And>rest. interleaves (pieces c s') rest \<Longrightarrow> interleaves (pieces c s) (extra @ rest)"
  shows "order_inv c p s'"
  using assms by (simp add: order_inv_def)

lemma order_inv_same:
  assumes "order_inv c p s" "returned s' = returned s" "pieces c s' = pieces c s"
  shows "order_inv c p s'"
  using assms by (simp add: order_inv_def)

lemma order_inv_feeder:
  assumes H: "clean_setup c p" and I: "clean_inv c p s" and O: "order_inv c p s"
    and f: "feeder_step c s = Some s'"
  shows "order_inv c p s'"
proof -
  from I have i: "pool (repositoryIter s) = p" "0 \<le> pos (repositoryIter s)" by (simp_all add: clean_inv_def)
  note nx = Next_clean [OF H i]
  from f show ?thesis
  proof (cases rule: feeder_step_cases)
    case cancelled
    with O show ?thesis by (intro order_inv_same [OF O]) (simp_all add: pieces_def)
  next
    case index_panic
    with nx show ?thesis by auto
  next
    case (repo repo i')
    from nx repo(3) have g: "GetPos (world c) p (pos (repositoryIter s)) = Return (Inr repo)" by auto
    with H obtain rows where n: "fst (NewIterator c repo) = Some (Producer rows EOF)"
      unfolding clean_setup_def by blast
    from seq_repo [OF repo(3) n] repo n show ?thesis
      by (intro order_inv_same [OF O]) (simp_all add: pieces_def)
  next
    case (eof i')
    with nx have "i' = repositoryIter s" by auto
    with eof show ?thesis by (intro order_inv_same [OF O]) (simp_all add: pieces_def)
  next
    case (error err i')
    with nx show ?thesis by auto
  next
    case (send_closed repo)
    with I show ?thesis by (simp add: clean_inv_def)
  next
    case (close_done_panic err)
    with I show ?thesis by (simp add: clean_inv_def)
  next
    case (close_done err)
    with I show ?thesis by (simp add: clean_inv_def)
  next
    case (close_repos_panic err)
    with I show ?thesis by (simp add: clean_inv_def)
  next
    case (close_repos err)
    then show ?thesis by (intro order_inv_same [OF O]) (simp_all add: pieces_def)
  qed
qed

lemma pieces_flags [simp]:
  "pieces c (s\<lparr>wg := n\<rparr>) = pieces c s"
  "pieces c (s\<lparr>joiner := j\<rparr>) = pieces c s"
  "pieces c (s\<lparr>consumer := k\<rparr>) = pieces c s"
  "pieces c (s\<lparr>returned := r\<rparr>) = pieces c s"
  "pieces c (s\<lparr>done_closed := b\<rparr>) = pieces c s"
  "pieces c (s\<lparr>repos_closed := b\<rparr>) = pieces c s"
  "pieces c (s\<lparr>rows_closed := b\<rparr>) = pieces c s"
  "pieces c (s\<lparr>panicked := x\<rparr>) = pieces c s"
  by (simp_all add: pieces_def)

lemma set_worker_fields [simp]:
  "returned (set_worker s w pc) = returned s"
  "feeder (set_worker s w pc) = feeder s"
  "repositoryIter (set_worker s w pc) = repositoryIter s"
  "consumer (set_worker s w pc) = consumer s"
  "workers (set_worker s w pc) = (workers s)[w := pc]"
  by (simp_all add: set_worker_def)

lemma order_inv_worker:
  assumes I: "clean_inv c p s" and O: "order_inv c p s"
    and w: "w < length (workers s)" and f: "worker_step c w s = Some s'"
  shows "order_inv c p s'"
proof -
  note ok = clean_worker_ok [OF I w]
  from f show ?thesis
  proof (cases rule: worker_step_cases)
    case range_closed
    with w show ?thesis by (intro order_inv_same [OF O]) (simp_all add: pieces_same)
  next
    case (cancelled pr)
    with I show ?thesis by (simp add: clean_inv_def)
  next
    case nil_close
    with I show ?thesis by (simp add: clean_inv_def)
  next
    case nil_next
    with ok show ?thesis by simp
  next
    case (row pr row pr')
    with w producer_Next_Inr [OF row(3)] show ?thesis
      by (intro order_inv_same [OF O]) (simp_all add: pieces_same)
  next
    case (eof pr pr')
    with w producer_Next_Inl [OF eof(3)] show ?thesis
      by (intro order_inv_same [OF O]) (simp_all add: pieces_same)
  next
    case (error pr err pr')
    with ok producer_Next_Inl [OF error(4)] show ?thesis by simp
  next
    case (send_closed row pr)
    then show ?thesis by (intro order_inv_same [OF O]) (simp_all add: raise_panic_def)
  next
    case close_done_panic
    with ok show ?thesis by simp
  next
    case close_done
    with ok show ?thesis by simp
  next
    case wg_panic
    then show ?thesis by (intro order_inv_same [OF O]) (simp_all add: raise_panic_def)
  next
    case wg_done
    with w show ?thesis by (intro order_inv_same [OF O]) (simp_all add: pieces_same)
  qed
qed

lemma order_inv_join:
  assumes O: "order_inv c p s" and f: "join_step s = Some s'"
  shows "order_inv c p s'"
  using f by (cases rule: join_step_cases) (auto intro!: order_inv_same [OF O] simp: raise_panic_def pieces_def)

lemma order_inv_consumer:
  assumes O: "order_inv c p s" and f: "consumer_step s = Some s'"
  shows "order_inv c p s'"
  using f by (cases rule: consumer_step_cases) (auto intro!: order_inv_same [OF O])

lemma order_inv_send_repo:
  assumes H: "clean_setup c p" and I: "clean_inv c p s" and O: "order_inv c p s"
    and w: "w < length (workers s)" and f: "send_repo c w s = Some s'"
  shows "order_inv c p s'"
  using f
proof (cases rule: send_repo_cases)
  case (send_repo repo)
  from I send_repo(1) obtain k where "GetPos (world c) p k = Return (Inr repo)"
    by (auto simp: clean_inv_def)
  with H obtain rows where n: "fst (NewIterator c repo) = Some (Producer rows EOF)"
    unfolding clean_setup_def by blast
  let ?W = "image_mset worker_piece (mset (workers s))"
  let ?S = "mset (sequential_rows c (repositoryIter s))"
  from w have "worker_piece (workers s ! w) \<in># ?W" by simp
  with send_repo(2) have m: "[] \<in># ?W" by simp
  have 1: "pieces c s = add_mset [] (add_mset rows ((?W - {#[]#}) + ?S))"
    using m send_repo(1) n by (simp add: pieces_def)
  have 2: "pieces c s' = add_mset rows ((?W - {#[]#}) + ?S)"
    using w send_repo n by (simp add: pieces_def set_worker_def image_mset_update)
  show ?thesis
  proof (rule order_inv_step [OF O, where extra = "[]"])
    show "rows_of (returned s') = rows_of (returned s) @ []" using send_repo by simp
  next
    fix rest
    assume "interleaves (pieces c s') rest"
    then show "interleaves (pieces c s) ([] @ rest)"
      unfolding 1 2 by (simp add: interleaves.skip)
  qed
qed

lemma order_inv_send_row:
  assumes O: "order_inv c p s"
    and w: "w < length (workers s)" and f: "send_row w s = Some s'"
  shows "order_inv c p s'"
  using f
proof (cases rule: send_row_cases)
  case (send_row row pr)
  from pieces_take [OF w, of c "WSelect (Some pr)"] send_row(1)
  obtain M where 1: "pieces c s = add_mset (row # pending pr) M"
    and 2: "pieces c (set_worker s w (WSelect (Some pr))) = add_mset (pending pr) M"
    by auto
  from 2 send_row(4) have 3: "pieces c s' = add_mset (pending pr) M" by simp
  show ?thesis
  proof (rule order_inv_step [OF O, where extra = "[row]"])
    show "rows_of (returned s') = rows_of (returned s) @ [row]"
      using send_row by (simp add: rows_of_append)
  next
    fix rest
    assume "interleaves (pieces c s') rest"
    then show "interleaves (pieces c s) ([row] @ rest)"
      unfolding 1 3 by (simp add: interleaves.take)
  qed
qed

lemma order_inv_send_err_feeder:
  assumes O: "order_inv c p s" and f: "send_err_feeder s = Some s'"
  shows "order_inv c p s'"
  using f
proof (cases rule: send_err_feeder_cases)
  case (send_err_feeder err)
  show ?thesis
  proof (rule order_inv_step [OF O, where extra = "[]"])
    show "rows_of (returned s') = rows_of (returned s) @ []"
      using send_err_feeder by (simp add: rows_of_append)
  next
    fix rest
    assume "interleaves (pieces c s') rest"
    then show "interleaves (pieces c s) ([] @ rest)"
      using send_err_feeder by (simp add: pieces_def)
  qed
qed

lemma order_inv_send_err_worker:
  assumes I: "clean_inv c p s"
    and w: "w < length (workers s)" and f: "send_err_worker w s = Some s'"
  shows "order_inv c p s'"
  using f
proof (cases rule: send_err_worker_cases)
  case (send_err_worker err)
  with clean_worker_ok [OF I w] show ?thesis by simp
qed

lemma order_inv_fire:
  assumes H: "clean_setup c p" and I: "clean_inv c p s" and O: "order_inv c p s"
    and f: "fire c l s = Some s'"
  shows "order_inv c p s'"
  using f
proof (cases rule: fire_cases)
  case feeder
  then show ?thesis using order_inv_feeder [OF H I O] by simp
next
  case (worker w)
  then show ?thesis using order_inv_worker [OF I O] by simp
next
  case joiner
  then show ?thesis using order_inv_join [OF O] by simp
next
  case consumer
  then show ?thesis using order_inv_consumer [OF O] by simp
next
  case (send_repo w)
  then show ?thesis using order_inv_send_repo [OF H I O] by simp
next
  case (send_row w)
  then show ?thesis using order_inv_send_row [OF O] by simp
next
  case send_err_feeder
  then show ?thesis using order_inv_send_err_feeder [OF O] by simp
next
  case (send_err_worker w)
  then show ?thesis using order_inv_send_err_worker [OF I] by simp
qed

text \<open>All three together along a run.\<close>

lemma clean_run_inv:
  assumes H: "clean_setup c p" and e: "exec c ls (NewRowRepoIter c p) = Some s"
  shows "join_inv s \<and> clean_inv c p s \<and> order_inv c p s"
proof (rule exec_induct_inv [where I = "\<lambda>s. join_inv s \<and> clean_inv c p s \<and> order_inv c p s"])
  fix l t t'
  assume a: "join_inv t \<and> clean_inv c p t \<and> order_inv c p t" and f: "fire c l t = Some t'"
  from a f have "join_inv t'" by (blast intro: join_inv_fire)
  moreover from a f have "clean_inv c p t'" by (blast intro: clean_inv_fire [OF H])
  moreover from a f have "order_inv c p t'" by (blast intro: order_inv_fire [OF H])
  ultimately show "join_inv t' \<and> clean_inv c p t' \<and> order_inv c p t'" by simp
next
  show "join_inv (NewRowRepoIter c p) \<and> clean_inv c p (NewRowRepoIter c p) \<and> order_inv c p (NewRowRepoIter c p)"
    using H by (simp add: join_inv_init clean_inv_init order_inv_init)
next
  show "exec c ls (NewRowRepoIter c p) = Some s" by (rule e)
qed

subsection \<open>Runs without failure: the rows at the end\<close>

lemma interleaves_all_empty: "\<forall>xs \<in># M. xs = [] \<Longrightarrow> interleaves M []"
proof (induction M)
  case empty
  show ?case by (rule interleaves.finished)
next
  case (add x M)
  then have "x = []" "interleaves M []" by simp_all
  then show ?case by (simp add: interleaves.skip)
qed

lemma interleaves_mset: "interleaves M ys \<Longrightarrow> mset ys = sum_mset (image_mset mset M)"
  by (induction rule: interleaves.induct) simp_all

lemma sum_mset_concat: "sum_mset (image_mset mset (mset xss)) = mset (concat xss)"
  by (induction xss) simp_all

lemma interleaves_is_interleaving:
  "interleaves M ys \<Longrightarrow>
   filter_mset (\<lambda>xs. xs \<noteq> []) (mset xss) = filter_mset (\<lambda>xs. xs \<noteq> []) M \<Longrightarrow>
   is_interleaving xss ys"
proof (induction arbitrary: xss rule: interleaves.induct)
  case finished
  then have "\<forall>xs \<in> set xss. xs = []" by auto
  then show ?case by simp
next
  case (skip M ys)
  then show ?case by simp
next
  case (take xs M ys x)
  from take.prems have "x # xs \<in># filter_mset (\<lambda>xs. xs \<noteq> []) (mset xss)" by simp
  then have "x # xs \<in> set xss" by simp
  then obtain k where k: "k < length xss" "xss ! k = x # xs" by (auto simp: in_set_conv_nth)
  have m: "mset (xss[k := xs]) = add_mset xs (mset xss - {#x # xs#})"
    using k by (simp add: mset_update)
  have "filter_mset (\<lambda>xs. xs \<noteq> []) (mset xss - {#x # xs#}) = filter_mset (\<lambda>xs. xs \<noteq> []) M"
    using take.prems by (metis add_mset_remove_trivial filter_mset_add_mset filter_diff_mset filter_single_mset list.distinct(1))
  then have "filter_mset (\<lambda>xs. xs \<noteq> []) (add_mset xs (mset xss - {#x # xs#}))
               = filter_mset (\<lambda>xs. xs \<noteq> []) (add_mset xs M)"
    by (simp only: filter_mset_add_mset)
  then have "filter_mset (\<lambda>xs. xs \<noteq> []) (mset (xss[k := xs])) = filter_mset (\<lambda>xs. xs \<noteq> []) (add_mset xs M)"
    by (simp only: m)
  then have "is_interleaving (xss[k := xs]) ys" by (rule take.IH)
  with k have a: "xss ! k \<noteq> [] \<and> hd (xss ! k) = x \<and> is_interleaving (xss[k := tl (xss ! k)]) ys"
    by simp
  from k have b: "k \<in> set [0..<length xss]" by simp
  show ?case unfolding is_interleaving.simps using a b by (rule bexI)
qed

lemma pieces_init:
  "pieces c (NewRowRepoIter c p) = replicate_mset (NumCPU c) [] + mset (sequential_rows c (RepoIter p))"
  by (simp add: pieces_def NewRowRepoIter_def)

lemma clean_completed:
  assumes J: "join_inv s" and I: "clean_inv c p s" and O: "order_inv c p s"
    and e: "Inl e \<in> set (returned s)"
  shows "returned s = map Inr (rows_of (returned s)) @ [Inl EOF]"
    and "is_interleaving (sequential_rows c (RepoIter p)) (rows_of (returned s))"
    and "mset (rows_of (returned s)) = mset (concat (sequential_rows c (RepoIter p)))"
proof -
  from I have r: "returned s = map Inr (rows_of (returned s)) @ (if feeder s = FReturned then [Inl EOF] else [])"
    by (simp add: clean_inv_def)
  have fr: "feeder s = FReturned"
  proof (rule ccontr)
    assume "feeder s \<noteq> FReturned"
    with r have "returned s = map Inr (rows_of (returned s))" by simp
    then have "set (returned s) = Inr ` set (rows_of (returned s))" by (metis set_map)
    with e show False by auto
  qed
  with r show 1: "returned s = map Inr (rows_of (returned s)) @ [Inl EOF]" by simp
  from I fr have rc: "rows_closed s" and ae: "at_end c (repositoryIter s)" by (simp_all add: clean_inv_def)
  from J rc have "\<forall>w < length (workers s). workers s ! w = WReturned" by (auto simp: join_inv_def active_zero)
  then have "\<forall>pc \<in> set (workers s). pc = WReturned" by (auto simp: in_set_conv_nth)
  then have "\<forall>xs \<in># pieces c s. xs = []"
    using fr seq_end [OF ae] by (auto simp: pieces_def)
  then have "interleaves (pieces c s) []" by (rule interleaves_all_empty)
  with O have il: "interleaves (pieces c (NewRowRepoIter c p)) (rows_of (returned s))"
    by (auto simp: order_inv_def)
  show "is_interleaving (sequential_rows c (RepoIter p)) (rows_of (returned s))"
    by (rule interleaves_is_interleaving [OF il]) (simp add: pieces_init)
  from interleaves_mset [OF il]
  show "mset (rows_of (returned s)) = mset (concat (sequential_rows c (RepoIter p)))"
    by (simp add: pieces_init sum_mset_concat)
qed

subsection \<open>Runs without failure: the bound on the length\<close>

lemma sum_list_map_update:
  "w < length ws \<Longrightarrow> sum_list (map f (ws[w := x])) + f (ws ! w) = sum_list (map f ws) + (f x :: nat)"
proof (induction ws arbitrary: w)
  case Nil
  then show ?case by simp
next
  case (Cons a ws)
  show ?case
  proof (cases w)
    case 0
    then show ?thesis by simp
  next
    case (Suc v)
    with Cons.prems have "v < length ws" by simp
    from Cons.IH [OF this] Suc show ?thesis by simp
  qed
qed

lemma worker_measure:
  assumes "w < length (workers s)"
  shows "sum_list (map worker_rank (workers (set_worker s w pc))) + worker_rank (workers s ! w)
           = sum_list (map worker_rank (workers s)) + worker_rank pc"
  using assms by (simp add: sum_list_map_update)

lemma measure_feeder:
  assumes H: "clean_setup c p" and I: "clean_inv c p s" and f: "feeder_step c s = Some s'"
  shows "run_measure c s' < run_measure c s"
proof -
  from I have i: "pool (repositoryIter s) = p" "0 \<le> pos (repositoryIter s)" by (simp_all add: clean_inv_def)
  note nx = Next_clean [OF H i]
  from f show ?thesis
  proof (cases rule: feeder_step_cases)
    case cancelled
    with I show ?thesis by (simp add: clean_inv_def)
  next
    case index_panic
    with nx show ?thesis by auto
  next
    case (repo repo i')
    from nx repo(3) have g: "GetPos (world c) p (pos (repositoryIter s)) = Return (Inr repo)" by auto
    with H obtain rows where n: "fst (NewIterator c repo) = Some (Producer rows EOF)"
      unfolding clean_setup_def by blast
    from seq_repo [OF repo(3) n] repo n show ?thesis
      by (simp add: run_measure_def repo_cost_def)
  next
    case (eof i')
    with nx have "i' = repositoryIter s" by auto
    with eof show ?thesis by (simp add: run_measure_def)
  next
    case (error err i')
    with nx show ?thesis by auto
  next
    case (send_closed repo)
    with I show ?thesis by (simp add: clean_inv_def)
  next
    case (close_done_panic err)
    with I show ?thesis by (simp add: clean_inv_def)
  next
    case (close_done err)
    with I show ?thesis by (simp add: clean_inv_def)
  next
    case (close_repos_panic err)
    with I show ?thesis by (simp add: clean_inv_def)
  next
    case (close_repos err)
    then show ?thesis by (simp add: run_measure_def)
  qed
qed

lemma run_measure_set_worker:
  assumes "w < length (workers s)" "worker_rank pc < worker_rank (workers s ! w)"
  shows "run_measure c (set_worker s w pc) < run_measure c s"
  using worker_measure [OF assms(1), of pc] assms(2) by (simp add: run_measure_def set_worker_def)

lemma run_measure_flags [simp]:
  "run_measure c (s\<lparr>wg := n\<rparr>) = run_measure c s"
  "run_measure c (s\<lparr>returned := r\<rparr>) = run_measure c s"
  "run_measure c (s\<lparr>done_closed := b\<rparr>) = run_measure c s"
  "run_measure c (s\<lparr>repos_closed := b\<rparr>) = run_measure c s"
  "run_measure c (s\<lparr>rows_closed := b\<rparr>) = run_measure c s"
  "run_measure c (s\<lparr>panicked := x\<rparr>) = run_measure c s"
  by (simp_all add: run_measure_def)

lemma measure_worker:
  assumes J: "join_inv s" and I: "clean_inv c p s"
    and w: "w < length (workers s)" and f: "worker_step c w s = Some s'"
  shows "run_measure c s' < run_measure c s"
proof -
  note ok = clean_worker_ok [OF I w]
  from f show ?thesis
  proof (cases rule: worker_step_cases)
    case range_closed
    with w show ?thesis by (simp add: run_measure_set_worker)
  next
    case (cancelled pr)
    with I show ?thesis by (simp add: clean_inv_def)
  next
    case nil_close
    with I show ?thesis by (simp add: clean_inv_def)
  next
    case nil_next
    with ok show ?thesis by simp
  next
    case (row pr row pr')
    with w producer_Next_Inr [OF row(3)] show ?thesis by (simp add: run_measure_set_worker)
  next
    case (eof pr pr')
    with w show ?thesis by (simp add: run_measure_set_worker)
  next
    case (error pr err pr')
    with ok producer_Next_Inl [OF error(4)] show ?thesis by simp
  next
    case (send_closed row pr)
    with join_inv_active [OF J w] show ?thesis by simp
  next
    case close_done_panic
    with ok show ?thesis by simp
  next
    case close_done
    with ok show ?thesis by simp
  next
    case wg_panic
    with join_inv_active [OF J w] show ?thesis by simp
  next
    case wg_done
    with w show ?thesis by (simp add: run_measure_set_worker)
  qed
qed

lemma measure_join:
  assumes J: "join_inv s" and f: "join_step s = Some s'"
  shows "run_measure c s' < run_measure c s"
  using f
proof (cases rule: join_step_cases)
  case wait
  then show ?thesis by (simp add: run_measure_def)
next
  case close_panic
  with J show ?thesis by (simp add: join_inv_def)
next
  case close
  then show ?thesis by (simp add: run_measure_def)
qed

lemma measure_consumer:
  assumes f: "consumer_step s = Some s'"
  shows "run_measure c s' < run_measure c s"
  using f by (cases rule: consumer_step_cases) (simp_all add: run_measure_def)

lemma measure_send_repo:
  assumes H: "clean_setup c p" and I: "clean_inv c p s"
    and w: "w < length (workers s)" and f: "send_repo c w s = Some s'"
  shows "run_measure c s' < run_measure c s"
  using f
proof (cases rule: send_repo_cases)
  case (send_repo repo)
  from I send_repo(1) obtain k where "GetPos (world c) p k = Return (Inr repo)"
    by (auto simp: clean_inv_def)
  with H obtain rows where n: "fst (NewIterator c repo) = Some (Producer rows EOF)"
    unfolding clean_setup_def by blast
  from worker_measure [OF w, of "WSelect (fst (NewIterator c repo))"] send_repo n
  show ?thesis by (simp add: run_measure_def repo_cost_def set_worker_def)
qed

lemma measure_send_row:
  assumes w: "w < length (workers s)" and f: "send_row w s = Some s'"
  shows "run_measure c s' < run_measure c s"
  using f
proof (cases rule: send_row_cases)
  case (send_row row pr)
  from worker_measure [OF w, of "WSelect (Some pr)"] send_row
  show ?thesis by (simp add: run_measure_def set_worker_def)
qed

lemma measure_send_err_feeder:
  assumes f: "send_err_feeder s = Some s'"
  shows "run_measure c s' < run_measure c s"
  using f by (cases rule: send_err_feeder_cases) (simp add: run_measure_def)

lemma measure_fire:
  assumes H: "clean_setup c p" and J: "join_inv s" and I: "clean_inv c p s"
    and f: "fire c l s = Some s'"
  shows "run_measure c s' < run_measure c s"
  using f
proof (cases rule: fire_cases)
  case feeder
  then show ?thesis using measure_feeder [OF H I] by simp
next
  case (worker w)
  then show ?thesis using measure_worker [OF J I] by simp
next
  case joiner
  from J joiner(3) show ?thesis by (rule measure_join)
next
  case consumer
  from consumer(3) show ?thesis by (rule measure_consumer)
next
  case (send_repo w)
  then show ?thesis using measure_send_repo [OF H I] by simp
next
  case (send_row w)
  from send_row(3,4) show ?thesis by (rule measure_send_row)
next
  case send_err_feeder
  from send_err_feeder(3) show ?thesis by (rule measure_send_err_feeder)
next
  case (send_err_worker w)
  from send_err_worker(4) show ?thesis
  proof (cases rule: send_err_worker_cases)
    case (send_err_worker err)
    with clean_worker_ok [OF I \<open>w < length (workers s)\<close>] show ?thesis by simp
  qed
qed

lemma run_length:
  assumes H: "clean_setup c p"
  shows "join_inv s \<Longrightarrow> clean_inv c p s \<Longrightarrow> exec c ls s = Some s' \<Longrightarrow>
         length ls + run_measure c s' \<le> run_measure c s"
proof (induction ls arbitrary: s)
  case Nil
  then show ?case by simp
next
  case (Cons l ls)
  from Cons.prems(3) obtain t where f: "fire c l s = Some t" and e: "exec c ls t = Some s'"
    by (auto split: option.splits)
  have "join_inv t" using Cons.prems(1) f by (rule join_inv_fire)
  moreover have "clean_inv c p t" using H Cons.prems(1,2) f by (rule clean_inv_fire)
  ultimately have "length ls + run_measure c s' \<le> run_measure c t" using e by (rule Cons.IH)
  moreover have "run_measure c t < run_measure c s" using H Cons.prems(1,2) f by (rule measure_fire)
  ultimately show ?case by simp
qed

subsection \<open>Runs without failure: no deadlock, and the theorem\<close>

lemma feeder_select_enabled:
  "feeder s = FSelect \<Longrightarrow> feeder_step c s \<noteq> None"
  by (simp add: feeder_step_def split: prod.splits outcome.splits sum.splits)

lemma worker_select_enabled:
  "workers s ! w = WSelect iter \<Longrightarrow> worker_step c w s \<noteq> None"
  by (simp add: worker_step_def split: prod.splits option.splits sum.splits)

lemma clean_progress:
  assumes H: "clean_setup c p" and J: "join_inv s" and I: "clean_inv c p s"
    and no: "\<forall>e. Inl e \<notin> set (returned s)"
  shows "\<exists>l. fire c l s \<noteq> None"
proof -
  from I have np: "panicked s = None" and len: "length (workers s) = NumCPU c"
    and fok: "feeder_ok c p (repos_closed s) (rows_closed s) (at_end c (repositoryIter s)) (feeder s)"
    and ret: "returned s = map Inr (rows_of (returned s)) @ (if feeder s = FReturned then [Inl EOF] else [])"
    by (simp_all add: clean_inv_def)
  from H len have w0: "0 < length (workers s)" by (simp add: clean_setup_def)
  have nfr: "feeder s \<noteq> FReturned"
  proof
    assume "feeder s = FReturned"
    with ret have "Inl EOF \<in> set (returned s)" by (metis in_set_conv_decomp)
    with no show False by simp
  qed
  show ?thesis
  proof (cases "consumer s")
    case CIdle
    with np have "fire c Consumer s \<noteq> None" by (simp add: fire_def consumer_step_def)
    then show ?thesis ..
  next
    case CRecvErr
    with J have rc: "rows_closed s" by (simp add: join_inv_def)
    with J w0 have "workers s ! 0 = WReturned" by (auto simp: join_inv_def active_zero)
    with clean_worker_ok [OF I w0] have "repos_closed s" by simp
    with fok nfr obtain err where "feeder s = FSendErr err" by (cases "feeder s") simp_all
    with np CRecvErr have "fire c SendErrFeeder s \<noteq> None" by (simp add: fire_def send_err_feeder_def)
    then show ?thesis ..
  next
    case CRecvRows
    show ?thesis
    proof (cases "rows_closed s")
      case True
      with np CRecvRows have "fire c Consumer s \<noteq> None" by (simp add: fire_def consumer_step_def)
      then show ?thesis ..
    next
      case False
      show ?thesis
      proof (cases "\<exists>w < length (workers s). workers s ! w \<noteq> WReturned")
        case True
        then obtain w where w: "w < length (workers s)" and nr: "workers s ! w \<noteq> WReturned" by blast
        note ok = clean_worker_ok [OF I w]
        show ?thesis
        proof (cases "workers s ! w")
          case WRange
          show ?thesis
          proof (cases "repos_closed s")
            case True
            with np w WRange have "fire c (Worker w) s \<noteq> None" by (simp add: fire_def worker_step_def)
            then show ?thesis ..
          next
            case nrc: False
            show ?thesis
            proof (cases "feeder s")
              case FSelect
              with np have "fire c Feeder s \<noteq> None" by (simp add: fire_def feeder_select_enabled)
              then show ?thesis ..
            next
              case (FSendRepo repo)
              with np w WRange nrc have "fire c (SendRepo w) s \<noteq> None" by (simp add: fire_def send_repo_def)
              then show ?thesis ..
            next
              case (FCloseDone err)
              with fok show ?thesis by simp
            next
              case (FCloseRepos err)
              with np nrc have "fire c Feeder s \<noteq> None" by (simp add: fire_def feeder_step_def)
              then show ?thesis ..
            next
              case (FSendErr err)
              with fok nrc show ?thesis by simp
            next
              case FReturned
              with nfr show ?thesis by simp
            qed
          qed
        next
          case (WSelect iter)
          with np w have "fire c (Worker w) s \<noteq> None" by (simp add: fire_def worker_select_enabled)
          then show ?thesis ..
        next
          case (WSendRow row pr)
          with np w CRecvRows False have "fire c (SendRow w) s \<noteq> None" by (simp add: fire_def send_row_def)
          then show ?thesis ..
        next
          case (WSendErr err)
          with ok show ?thesis by simp
        next
          case WCloseDone
          with ok show ?thesis by simp
        next
          case WDone
          with np w have "fire c (Worker w) s \<noteq> None" by (simp add: fire_def worker_step_def)
          then show ?thesis ..
        next
          case WReturned
          with nr show ?thesis by simp
        qed
      next
        case allret: False
        with J have wg0: "wg s = 0" by (auto simp: join_inv_def active_zero)
        show ?thesis
        proof (cases "joiner s")
          case JWait
          with np wg0 have "fire c Joiner s \<noteq> None" by (simp add: fire_def join_step_def)
          then show ?thesis ..
        next
          case JCloseRows
          with np have "fire c Joiner s \<noteq> None" by (simp add: fire_def join_step_def)
          then show ?thesis ..
        next
          case JReturned
          with J False show ?thesis by (simp add: join_inv_def)
        qed
      qed
    qed
  qed
qed

text \<open>
  Claim C1. Take a pool that satisfies its invariant and whose registered paths all open, a
  \<open>NewIterator\<close> that gives every repository of the pool a producer ending with
  \<open>io.EOF\<close>, and at least one worker. Then in every run of the pipeline, whatever the
  schedule: nothing panics; the run has at most \<open>run_measure\<close> steps; as long as \<open>Next\<close>
  has not returned an error some step can be taken, so the run does not get stuck before
  that; and once \<open>Next\<close> has returned an error, it has returned rows and then \<open>io.EOF\<close>,
  the rows are an interleaving of the row lists of the sequential run (the rows of one
  repository in the order of its producer, no order between repositories), and as a
  multiset they are the rows of the sequential run.
\<close>

theorem pipeline_yields_sequential_rows:
  assumes "clean_setup c p" and "exec c ls (NewRowRepoIter c p) = Some s"
  shows "panicked s = None \<and>
         length ls \<le> run_measure c (NewRowRepoIter c p) \<and>
         ((\<forall>e. Inl e \<notin> set (returned s)) \<longrightarrow> (\<exists>l. fire c l s \<noteq> None)) \<and>
         ((\<exists>e. Inl e \<in> set (returned s)) \<longrightarrow>
            returned s = map Inr (rows_of (returned s)) @ [Inl EOF] \<and>
            is_interleaving (sequential_rows c (RepoIter p)) (rows_of (returned s)) \<and>
            mset (rows_of (returned s)) = mset (concat (sequential_rows c (RepoIter p))))"
proof -
  from clean_run_inv [OF assms] have J: "join_inv s" and I: "clean_inv c p s" and O: "order_inv c p s"
    by simp_all
  from I have 1: "panicked s = None" by (simp add: clean_inv_def)
  from run_length [OF assms(1) join_inv_init clean_inv_init [OF assms(1)] assms(2)]
  have 2: "length ls \<le> run_measure c (NewRowRepoIter c p)" by simp
  have 3: "(\<forall>e. Inl e \<notin> set (returned s)) \<longrightarrow> (\<exists>l. fire c l s \<noteq> None)"
    using clean_progress [OF assms(1) J I] by blast
  have 4: "(\<exists>e. Inl e \<in> set (returned s)) \<longrightarrow>
            returned s = map Inr (rows_of (returned s)) @ [Inl EOF] \<and>
            is_interleaving (sequential_rows c (RepoIter p)) (rows_of (returned s)) \<and>
            mset (rows_of (returned s)) = mset (concat (sequential_rows c (RepoIter p)))"
    using clean_completed [OF J I O] by blast
  from 1 2 3 4 show ?thesis by blast
qed

subsection \<open>The run of the example\<close>

lemma example_clean_setup: "clean_setup example_config example_pool"
proof -
  have "pool_inv example_pool" by (auto simp: example_pool_eq pool_inv_def)
  moreover have "\<forall>ident \<in> set (idOrder example_pool).
        \<exists>path h. fmlookup (repositories example_pool) ident = Some path \<and>
                 PlainOpen (world example_config) path = Inr h"
    by (simp add: example_pool_eq example_config_def)
  moreover have "\<forall>k repo. GetPos (world example_config) example_pool k = Return (Inr repo) \<longrightarrow>
        (\<exists>rows. fst (NewIterator example_config repo) = Some (Producer rows EOF))"
    by (simp add: example_config_def)
  moreover have "0 < NumCPU example_config" by (simp add: example_config_def)
  ultimately show ?thesis unfolding clean_setup_def by blast
qed

lemma example_sequential_rows:
  "sequential_rows example_config (RepoIter example_pool) = [[1, 2], [3]]"
  by (simp add: sequential_rows.simps RepositoryIter_Next_def RepoIter_def example_config_def)

theorem pipeline_yields_sequential_rows_witness:
  "clean_setup example_config example_pool \<and>
   exec example_config example_run (NewRowRepoIter example_config example_pool) = Some finished_state \<and>
   Inl EOF \<in> set (returned finished_state) \<and>
   panicked finished_state = None \<and>
   length example_run \<le> run_measure example_config (NewRowRepoIter example_config example_pool) \<and>
   returned finished_state = map Inr [3, 1, 2] @ [Inl EOF] \<and>
   sequential_rows example_config (RepoIter example_pool) = [[1, 2], [3]] \<and>
   is_interleaving [[1, 2], [3]] [3, 1, 2 :: nat] \<and>
   mset [3, 1, 2] = mset (concat [[1, 2], [3 :: nat]]) \<and>
   exec example_config [] (NewRowRepoIter example_config example_pool)
     = Some (NewRowRepoIter example_config example_pool) \<and>
   returned (NewRowRepoIter example_config example_pool) = [] \<and>
   fire example_config Feeder (NewRowRepoIter example_config example_pool) \<noteq> None"
proof -
  note a = pipeline_yields_sequential_rows [OF example_clean_setup example_run_finished]
  have e0: "exec example_config [] (NewRowRepoIter example_config example_pool)
     = Some (NewRowRepoIter example_config example_pool)" by simp
  note b = pipeline_yields_sequential_rows [OF example_clean_setup e0]
  have r: "rows_of (returned finished_state) = [3, 1, 2]" "Inl EOF \<in> set (returned finished_state)"
    "returned finished_state = map Inr [3, 1, 2] @ [Inl EOF]"
    by (simp_all add: finished_state_def)
  have f: "fire example_config Feeder (NewRowRepoIter example_config example_pool) \<noteq> None"
    by (simp add: step_defs example_config_def)
  have r0: "returned (NewRowRepoIter example_config example_pool) = []" by (simp add: NewRowRepoIter_def)
  from a r(2) have "is_interleaving (sequential_rows example_config (RepoIter example_pool)) (rows_of (returned finished_state)) \<and>
       mset (rows_of (returned finished_state)) = mset (concat (sequential_rows example_config (RepoIter example_pool)))"
    by blast
  then have il: "is_interleaving [[1, 2], [3]] [3, 1, 2 :: nat] \<and> mset [3, 1, 2] = mset (concat [[1, 2], [3 :: nat]])"
    by (simp only: r(1) example_sequential_rows)
  from a have a1: "panicked finished_state = None"
    and a2: "length example_run \<le> run_measure example_config (NewRowRepoIter example_config example_pool)"
    by blast+
  from b r0 have "\<exists>l. fire example_config l (NewRowRepoIter example_config example_pool) \<noteq> None"
    by simp
  show ?thesis
    by (intro conjI example_clean_setup example_run_finished r(2) a1 a2 r(3) example_sequential_rows
          conjunct1 [OF il] conjunct2 [OF il] e0 r0 f)
qed

end
